theory Spec2Isabelle
  imports Main "HOL-Library.Word" "HOL-Library.Signed_Division" "HOL-Library.AList"
    "HOL-Library.Multiset"
begin

section \<open>Machine types and the failures of the C++ program\<close>

text \<open>
  The simulator is C++ on an LP64 target: \<open>int\<close> is a 32-bit two's complement value and
  \<open>unsigned long\<close> a 64-bit one. A list node is known to the program by its address
  (a \<open>list<CacheBlock>::iterator\<close> or a \<open>CacheBlock*\<close>); the model names each node by
  a number that is never handed out twice within one list.
\<close>

type_synonym cint = "32 word"
type_synonym ulong = "64 word"
type_synonym node = nat

text \<open>
  What the C++ leaves undefined or answers with a trap or an exception is a value of
  \<open>error\<close>: division by zero, signed overflow, a vector that cannot be created,
  \<open>back()\<close> of an empty list, an iterator or a pointer that names no node of the list,
  and an index past the end of \<open>sets\<close>.
\<close>

datatype error = DivisionByZero | SignedOverflow | LengthError | EmptyList
  | InvalidIterator | InvalidPointer | OutOfRange

definition int_in_range :: "int \<Rightarrow> bool" where
  "int_in_range k \<longleftrightarrow> - (2 ^ 31) \<le> k \<and> k < 2 ^ 31"

definition int_mul :: "cint \<Rightarrow> cint \<Rightarrow> error + cint" where
  "int_mul a b =
     (if int_in_range (sint a * sint b) then Inr (a * b) else Inl SignedOverflow)"

definition int_div :: "cint \<Rightarrow> cint \<Rightarrow> error + cint" where
  "int_div a b =
     (if b = 0 then Inl DivisionByZero
      else if int_in_range (sint a sdiv sint b) then Inr (word_of_int (sint a sdiv sint b))
      else Inl SignedOverflow)"

definition int_incr :: "cint \<Rightarrow> error + cint" where
  "int_incr n = (if int_in_range (sint n + 1) then Inr (n + 1) else Inl SignedOverflow)"

text \<open>The conversion of an \<open>int\<close> operand to \<open>unsigned long\<close> (sign extension).\<close>

definition to_ulong :: "cint \<Rightarrow> ulong" where
  "to_ulong k = scast k"

section \<open>CacheBlock\<close>

record CacheBlock =
  tag :: ulong
  valid :: bool
  dirty :: bool

definition CacheBlock_default :: CacheBlock where
  "CacheBlock_default = \<lparr>tag = 0, valid = False, dirty = False\<rparr>"

section \<open>CacheSet and VictimCache\<close>

text \<open>
  \<open>blocks\<close> is the \<open>std::list\<close>, front first, each node with its identity;
  \<open>blockMap\<close> is the \<open>unordered_map\<close> from tag to iterator, kept as an association
  list with one entry for each key, so that its length is \<open>blockMap.size()\<close>;
  \<open>nextNode\<close> is the identity the next allocated node receives.
  \<open>VictimCache\<close> declares the same two containers and the same five methods, word for
  word, and one more field; it is the record extended by \<open>numBlocks\<close>, and the methods
  are defined once for both.
\<close>

record CacheSet =
  blocks :: "(node \<times> CacheBlock) list"
  blockMap :: "(ulong \<times> node) list"
  nextNode :: node

record VictimCache = CacheSet +
  numBlocks :: cint

definition default_blocks :: "cint \<Rightarrow> (node \<times> CacheBlock) list" where
  "default_blocks n = map (\<lambda>i. (i, CacheBlock_default)) [0..<nat (sint n)]"

definition CacheSet_init :: "cint \<Rightarrow> CacheSet" where
  "CacheSet_init a =
     \<lparr>blocks = default_blocks a, blockMap = [], nextNode = nat (sint a)\<rparr>"

definition VictimCache_init :: "cint \<Rightarrow> VictimCache" where
  "VictimCache_init n =
     \<lparr>blocks = default_blocks n, blockMap = [], nextNode = nat (sint n), numBlocks = n\<rparr>"

definition findBlock :: "'a CacheSet_scheme \<Rightarrow> ulong \<Rightarrow> node option" where
  "findBlock s t = map_of (blockMap s) t"

text \<open>\<open>list::erase(iterator)\<close>: unlink the node the iterator names.\<close>

fun erase :: "node \<Rightarrow> (node \<times> CacheBlock) list \<Rightarrow> (node \<times> CacheBlock) list" where
  "erase it [] = []"
| "erase it (x # xs) = (if fst x = it then xs else x # erase it xs)"

text \<open>
  \<open>moveToMRU\<close> erases the node \<open>blockMap[block->tag]\<close> and then pushes \<open>*block\<close>.
  On every call in the program \<open>block\<close> is that very node, so \<open>*block\<close> is read after
  the node is gone: C++ gives that read no meaning, and the storage, released a moment
  before, still holds what the node held. The model pushes the contents the node held
  when the call was made, which is the move to the front the method is named after.
\<close>

definition moveToMRU :: "'a CacheSet_scheme \<Rightarrow> node \<Rightarrow> error + 'a CacheSet_scheme" where
  "moveToMRU s block =
     (case map_of (blocks s) block of
        None \<Rightarrow> Inl InvalidPointer
      | Some b \<Rightarrow>
          (case map_of (blockMap s) (tag b) of
             None \<Rightarrow> Inl InvalidIterator
           | Some it \<Rightarrow>
               if map_of (blocks s) it = None then Inl InvalidIterator
               else Inr (s\<lparr>blocks := (nextNode s, b) # erase it (blocks s),
                           blockMap := AList.update (tag b) (nextNode s) (blockMap s),
                           nextNode := Suc (nextNode s)\<rparr>)))"

text \<open>
  \<open>evictLRU\<close> returns a pointer to the node it has just popped; the caller reads the
  \<open>dirty\<close> flag through it. The model returns the contents of that node.
\<close>

definition evictLRU :: "'a CacheSet_scheme \<Rightarrow> error + (CacheBlock \<times> 'a CacheSet_scheme)" where
  "evictLRU s =
     (if blocks s = [] then Inl EmptyList
      else let lruBlock = snd (last (blocks s))
           in Inr (lruBlock, s\<lparr>blockMap := AList.delete (tag lruBlock) (blockMap s),
                                blocks := butlast (blocks s)\<rparr>))"

definition insertBlock :: "'a CacheSet_scheme \<Rightarrow> CacheBlock \<Rightarrow> 'a CacheSet_scheme" where
  "insertBlock s block =
     s\<lparr>blocks := (nextNode s, block) # blocks s,
       blockMap := AList.update (tag block) (nextNode s) (blockMap s),
       nextNode := Suc (nextNode s)\<rparr>"

definition isFull :: "'a CacheSet_scheme \<Rightarrow> bool" where
  "isFull s \<longleftrightarrow> length (blockMap s) = length (blocks s)"

section \<open>Cache\<close>

record Cache =
  size_c :: cint
  assoc :: cint
  blockSize :: cint
  numSets :: cint
  sets :: "CacheSet list"
  numReads :: cint
  numReadMisses :: cint
  numWrites :: cint
  numWriteMisses :: cint
  numWriteBacks :: cint

text \<open>
  The constructor: \<open>numSets = size / (assoc * blockSize)\<close> in \<open>int\<close>; the vector of
  \<open>numSets\<close> copies of \<open>CacheSet(assoc)\<close> cannot be created for a negative count.
\<close>

definition Cache_init :: "cint \<Rightarrow> cint \<Rightarrow> cint \<Rightarrow> error + Cache" where
  "Cache_init sz a bs =
     (case int_mul a bs of
        Inl e \<Rightarrow> Inl e
      | Inr p \<Rightarrow>
          (case int_div sz p of
             Inl e \<Rightarrow> Inl e
           | Inr n \<Rightarrow>
               if sint n < 0 then Inl LengthError
               else Inr \<lparr>size_c = sz, assoc = a, blockSize = bs, numSets = n,
                         sets = replicate (nat (sint n)) (CacheSet_init a),
                         numReads = 0, numReadMisses = 0, numWrites = 0,
                         numWriteMisses = 0, numWriteBacks = 0\<rparr>))"

text \<open>
  The first three lines of \<open>accessCache\<close> and of \<open>writeToCache\<close>: the set index
  \<open>(address / blockSize) % numSets\<close> and the tag \<open>address / (blockSize * numSets)\<close>,
  where the product is taken in \<open>int\<close> and each \<open>int\<close> operand of an
  \<open>unsigned long\<close> operation is converted first, then the reference \<open>sets[setIndex]\<close>.
\<close>

definition setIndex_of :: "Cache \<Rightarrow> ulong \<Rightarrow> error + ulong" where
  "setIndex_of c address =
     (if to_ulong (blockSize c) = 0 \<or> to_ulong (numSets c) = 0 then Inl DivisionByZero
      else Inr ((address div to_ulong (blockSize c)) mod to_ulong (numSets c)))"

definition tag_of :: "Cache \<Rightarrow> ulong \<Rightarrow> error + ulong" where
  "tag_of c address =
     (case int_mul (blockSize c) (numSets c) of
        Inl e \<Rightarrow> Inl e
      | Inr bn \<Rightarrow>
          if to_ulong bn = 0 then Inl DivisionByZero else Inr (address div to_ulong bn))"

definition locate :: "Cache \<Rightarrow> ulong \<Rightarrow> error + (nat \<times> ulong)" where
  "locate c address =
     (case setIndex_of c address of
        Inl e \<Rightarrow> Inl e
      | Inr si \<Rightarrow>
          (case tag_of c address of
             Inl e \<Rightarrow> Inl e
           | Inr t \<Rightarrow>
               if unat si < length (sets c) then Inr (unat si, t) else Inl OutOfRange))"

text \<open>\<open>accessCache\<close> returns the pointer it found (\<open>None\<close> is \<open>nullptr\<close>, a miss).\<close>

definition accessCache :: "Cache \<Rightarrow> ulong \<Rightarrow> error + (node option \<times> Cache)" where
  "accessCache c address =
     (case locate c address of
        Inl e \<Rightarrow> Inl e
      | Inr (i, t) \<Rightarrow>
          (case findBlock (sets c ! i) t of
             Some block \<Rightarrow>
               (case moveToMRU (sets c ! i) block of
                  Inl e \<Rightarrow> Inl e
                | Inr s' \<Rightarrow> Inr (Some block, c\<lparr>sets := (sets c)[i := s']\<rparr>))
           | None \<Rightarrow> Inr (None, c)))"

text \<open>
  \<open>block->dirty = true\<close> after \<open>moveToMRU(block)\<close>: the node \<open>block\<close> named has been
  erased and its copy is the front node, allocated in the storage just released; the
  model sets the flag of that front node, the block the write is meant to mark.
\<close>

definition mark_front_dirty :: "'a CacheSet_scheme \<Rightarrow> 'a CacheSet_scheme" where
  "mark_front_dirty s =
     (case blocks s of
        [] \<Rightarrow> s
      | x # xs \<Rightarrow> s\<lparr>blocks := (fst x, (snd x)\<lparr>dirty := True\<rparr>) # xs\<rparr>)"

definition writeToCache :: "Cache \<Rightarrow> ulong \<Rightarrow> error + Cache" where
  "writeToCache c address =
     (case locate c address of
        Inl e \<Rightarrow> Inl e
      | Inr (i, t) \<Rightarrow>
          (case findBlock (sets c ! i) t of
             Some block \<Rightarrow>
               (case moveToMRU (sets c ! i) block of
                  Inl e \<Rightarrow> Inl e
                | Inr s' \<Rightarrow> Inr (c\<lparr>sets := (sets c)[i := mark_front_dirty s']\<rparr>))
           | None \<Rightarrow>
               (let newBlock = \<lparr>tag = t, valid = True, dirty = True\<rparr> in
                if isFull (sets c ! i) then
                  (case evictLRU (sets c ! i) of
                     Inl e \<Rightarrow> Inl e
                   | Inr (evicted, s') \<Rightarrow>
                       if dirty evicted then
                         (case int_incr (numWriteBacks c) of
                            Inl e \<Rightarrow> Inl e
                          | Inr k \<Rightarrow>
                              Inr (c\<lparr>numWriteBacks := k,
                                     sets := (sets c)[i := insertBlock s' newBlock]\<rparr>))
                       else Inr (c\<lparr>sets := (sets c)[i := insertBlock s' newBlock]\<rparr>))
                else Inr (c\<lparr>sets := (sets c)[i := insertBlock (sets c ! i) newBlock]\<rparr>))))"

section \<open>The hierarchy and the simulation loop\<close>

text \<open>
  \<open>simulateCacheHierarchy\<close> works on \<open>L1\<close>, on \<open>L2\<close> and \<open>VC\<close> when their pointers are
  not null, and on the lines of the trace, each already read as an operation character
  and an address.
\<close>

record Hierarchy =
  L1 :: Cache
  L2 :: "Cache option"
  VC :: "VictimCache option"

type_synonym event = "char \<times> ulong"

definition readEvent :: "Hierarchy \<Rightarrow> ulong \<Rightarrow> error + Hierarchy" where
  "readEvent h address =
     (case int_incr (numReads (L1 h)) of
        Inl e \<Rightarrow> Inl e
      | Inr r \<Rightarrow>
          (case accessCache ((L1 h)\<lparr>numReads := r\<rparr>) address of
             Inl e \<Rightarrow> Inl e
           | Inr (Some block, c) \<Rightarrow> Inr (h\<lparr>L1 := c\<rparr>)
           | Inr (None, c) \<Rightarrow>
               (case int_incr (numReadMisses c) of
                  Inl e \<Rightarrow> Inl e
                | Inr m \<Rightarrow>
                    (case VC h of
                       None \<Rightarrow> Inr (h\<lparr>L1 := c\<lparr>numReadMisses := m\<rparr>\<rparr>)
                     | Some vc \<Rightarrow>
                         (case findBlock vc address of
                            Some victimBlock \<Rightarrow>
                              (case moveToMRU vc victimBlock of
                                 Inl e \<Rightarrow> Inl e
                               | Inr vc' \<Rightarrow>
                                   Inr (h\<lparr>L1 := c\<lparr>numReadMisses := m\<rparr>, VC := Some vc'\<rparr>))
                          | None \<Rightarrow>
                              (case L2 h of
                                 None \<Rightarrow> Inr (h\<lparr>L1 := c\<lparr>numReadMisses := m\<rparr>\<rparr>)
                               | Some l2 \<Rightarrow>
                                   (case accessCache l2 address of
                                      Inl e \<Rightarrow> Inl e
                                    | Inr (block, l2') \<Rightarrow>
                                        Inr (h\<lparr>L1 := c\<lparr>numReadMisses := m\<rparr>,
                                               L2 := Some l2'\<rparr>))))))))"

definition writeEvent :: "Hierarchy \<Rightarrow> ulong \<Rightarrow> error + Hierarchy" where
  "writeEvent h address =
     (case int_incr (numWrites (L1 h)) of
        Inl e \<Rightarrow> Inl e
      | Inr w \<Rightarrow>
          (case accessCache ((L1 h)\<lparr>numWrites := w\<rparr>) address of
             Inl e \<Rightarrow> Inl e
           | Inr (Some block, c) \<Rightarrow>
               (case writeToCache c address of
                  Inl e \<Rightarrow> Inl e
                | Inr c' \<Rightarrow> Inr (h\<lparr>L1 := c'\<rparr>))
           | Inr (None, c) \<Rightarrow>
               (case int_incr (numWriteMisses c) of
                  Inl e \<Rightarrow> Inl e
                | Inr m \<Rightarrow>
                    (case writeToCache (c\<lparr>numWriteMisses := m\<rparr>) address of
                       Inl e \<Rightarrow> Inl e
                     | Inr c' \<Rightarrow> Inr (h\<lparr>L1 := c'\<rparr>)))))"

definition processEvent :: "Hierarchy \<Rightarrow> event \<Rightarrow> error + Hierarchy" where
  "processEvent h ev =
     (if fst ev = CHR ''r'' then readEvent h (snd ev)
      else if fst ev = CHR ''w'' then writeEvent h (snd ev)
      else Inr h)"

fun simulateCacheHierarchy :: "Hierarchy \<Rightarrow> event list \<Rightarrow> error + Hierarchy" where
  "simulateCacheHierarchy h [] = Inr h"
| "simulateCacheHierarchy h (ev # evs) =
     (case processEvent h ev of
        Inl e \<Rightarrow> Inl e
      | Inr h' \<Rightarrow> simulateCacheHierarchy h' evs)"

text \<open>
  \<open>main\<close> after the arguments are parsed: \<open>L1\<close> always, \<open>L2\<close> (with the block size of
  \<open>L1\<close>) when \<open>L2_SIZE > 0\<close>, the victim cache when \<open>VC_NUM_BLOCKS > 0\<close>.
\<close>

definition main_caches ::
  "cint \<Rightarrow> cint \<Rightarrow> cint \<Rightarrow> cint \<Rightarrow> cint \<Rightarrow> cint \<Rightarrow> error + Hierarchy" where
  "main_caches L1_SIZE L1_ASSOC L1_BLOCKSIZE VC_NUM_BLOCKS L2_SIZE L2_ASSOC =
     (case Cache_init L1_SIZE L1_ASSOC L1_BLOCKSIZE of
        Inl e \<Rightarrow> Inl e
      | Inr l1 \<Rightarrow>
          (case (if 0 <s L2_SIZE
                 then map_sum id Some (Cache_init L2_SIZE L2_ASSOC L1_BLOCKSIZE)
                 else Inr None) of
             Inl e \<Rightarrow> Inl e
           | Inr l2 \<Rightarrow>
               Inr \<lparr>L1 = l1, L2 = l2,
                    VC = (if 0 <s VC_NUM_BLOCKS then Some (VictimCache_init VC_NUM_BLOCKS)
                          else None)\<rparr>))"

definition main :: "cint \<Rightarrow> cint \<Rightarrow> cint \<Rightarrow> cint \<Rightarrow> cint \<Rightarrow> cint \<Rightarrow> event list
    \<Rightarrow> error + Hierarchy" where
  "main L1_SIZE L1_ASSOC L1_BLOCKSIZE VC_NUM_BLOCKS L2_SIZE L2_ASSOC trace =
     (case main_caches L1_SIZE L1_ASSOC L1_BLOCKSIZE VC_NUM_BLOCKS L2_SIZE L2_ASSOC of
        Inl e \<Rightarrow> Inl e
      | Inr h \<Rightarrow> simulateCacheHierarchy h trace)"

section \<open>Notions the properties are stated with\<close>

text \<open>
  An access to a cache is a miss when \<open>accessCache\<close> returns \<open>nullptr\<close>, a hit when it
  returns a block.
\<close>

definition misses :: "Cache \<Rightarrow> ulong \<Rightarrow> bool" where
  "misses c address = (case accessCache c address of Inr (None, c') \<Rightarrow> True | _ \<Rightarrow> False)"

definition hits :: "Cache \<Rightarrow> ulong \<Rightarrow> bool" where
  "hits c address = (case accessCache c address of Inr (Some block, c') \<Rightarrow> True | _ \<Rightarrow> False)"

text \<open>The tag maps of the victim cache and of every set of \<open>L2\<close> are empty.\<close>

definition maps_empty :: "Hierarchy \<Rightarrow> bool" where
  "maps_empty h \<longleftrightarrow>
     (case VC h of None \<Rightarrow> True | Some vc \<Rightarrow> blockMap vc = [])
   \<and> (case L2 h of None \<Rightarrow> True | Some l2 \<Rightarrow> list_all (\<lambda>s. blockMap s = []) (sets l2))"

text \<open>
  Every set of a cache has as many more list nodes than map entries as the
  associativity says.
\<close>

definition surplus_nodes :: "Cache \<Rightarrow> bool" where
  "surplus_nodes c \<longleftrightarrow>
     list_all (\<lambda>s. length (blocks s) = length (blockMap s) + nat (sint (assoc c))) (sets c)"

text \<open>
  While \<open>L1\<close> has a positive associativity and keeps that surplus, no set of it is full,
  and nothing has been written back.
\<close>

definition quiet :: "Hierarchy \<Rightarrow> bool" where
  "quiet h \<longleftrightarrow> surplus_nodes (L1 h) \<and> 0 < sint (assoc (L1 h)) \<and> numWriteBacks (L1 h) = 0"

text \<open>
  The block a tag names in a set: what \<open>findBlock\<close> points to. Two states of a set hold
  the same blocks when the contents of the list nodes are the same up to their order and
  the map has the same keys.
\<close>

definition resident :: "'a CacheSet_scheme \<Rightarrow> ulong \<Rightarrow> CacheBlock option" where
  "resident s t = (case findBlock s t of None \<Rightarrow> None | Some block \<Rightarrow> map_of (blocks s) block)"

definition same_blocks :: "'a CacheSet_scheme \<Rightarrow> 'a CacheSet_scheme \<Rightarrow> bool" where
  "same_blocks s s' \<longleftrightarrow>
     mset (map snd (blocks s')) = mset (map snd (blocks s))
   \<and> set (map fst (blockMap s')) = set (map fst (blockMap s))"

text \<open>
  The shape the program keeps its sets in: the nodes of the list are distinct and older
  than the next node, and every iterator in the map names a node of the list that
  carries the key as its tag.
\<close>

definition wf_set :: "'a CacheSet_scheme \<Rightarrow> bool" where
  "wf_set s \<longleftrightarrow>
     distinct (map fst (blocks s))
   \<and> (\<forall>n \<in> set (map fst (blocks s)). n < nextNode s)
   \<and> (\<forall>t p. map_of (blockMap s) t = Some p \<longrightarrow> (\<exists>b. map_of (blocks s) p = Some b \<and> tag b = t))"

definition wf_cache :: "Cache \<Rightarrow> bool" where
  "wf_cache c \<longleftrightarrow> (\<forall>s \<in> set (sets c). wf_set s)"

text \<open>What holds of every state a run reaches from the caches \<open>main\<close> builds.\<close>

definition reach_inv :: "Hierarchy \<Rightarrow> bool" where
  "reach_inv h \<longleftrightarrow> wf_cache (L1 h) \<and> maps_empty h"

text \<open>
  A cache that can take accesses: block size and number of sets are positive, their
  product is an \<open>int\<close>, and there are \<open>numSets\<close> sets. Two states of a cache of the
  same configuration. The geometry the constructor computes by rounding down. Counters
  that have not passed a bound. And what a run keeps that started from caches with such
  a geometry.
\<close>

definition geometry_ok :: "Cache \<Rightarrow> bool" where
  "geometry_ok c \<longleftrightarrow>
     0 < sint (blockSize c) \<and> 0 < sint (numSets c)
   \<and> sint (blockSize c) * sint (numSets c) < 2 ^ 31
   \<and> length (sets c) = nat (sint (numSets c))"





section \<open>Fixtures: the configurations, traces and states of the scenarios\<close>

text \<open>
  The end-to-end scenario: \<open>L1\<close> alone with size 1024, associativity 1 and block size
  32, on the trace \<open>r 0\<close>, \<open>r 20\<close>, \<open>w 0\<close>, \<open>r 420\<close> (the addresses are read as
  hexadecimal numbers by \<open>%lx\<close>).
\<close>

definition scenario_trace :: "event list" where
  "scenario_trace = [(CHR ''r'', 0x0), (CHR ''r'', 0x20), (CHR ''w'', 0x0), (CHR ''r'', 0x420)]"

definition scenario_run :: "error + Hierarchy" where
  "scenario_run = main 1024 1 32 0 0 0 scenario_trace"

text \<open>The cache of that scenario, as the constructor builds it.\<close>

definition scenario_cache :: Cache where
  "scenario_cache = projr (Cache_init 1024 1 32)"




text \<open>
  Two more configurations, each on the single read \<open>r 0\<close>: \<open>L1\<close> and \<open>L2\<close> without a
  victim cache, and \<open>L1\<close>, a victim cache of one block and \<open>L2\<close>.
\<close>

definition l2_only_setup :: "error + Hierarchy" where
  "l2_only_setup = main_caches 1024 1 32 0 2048 1"

definition l2_only_run :: "error + Hierarchy" where
  "l2_only_run = main 1024 1 32 0 2048 1 [(CHR ''r'', 0x0)]"

definition vc_l2_setup :: "error + Hierarchy" where
  "vc_l2_setup = main_caches 1024 1 32 1 2048 1"

definition vc_l2_run :: "error + Hierarchy" where
  "vc_l2_run = main 1024 1 32 1 2048 1 [(CHR ''r'', 0x0)]"

text \<open>
  A victim cache of one block beside a direct-mapped \<open>L1\<close> of one set, on the trace
  \<open>w 0\<close>, \<open>w 20\<close>, \<open>r 0\<close>, whose second write brings a second block to the one set.
\<close>

definition vc_trace :: "event list" where
  "vc_trace = [(CHR ''w'', 0x0), (CHR ''w'', 0x20), (CHR ''r'', 0x0)]"

definition vc_run :: "error + Hierarchy" where
  "vc_run = main 32 1 32 1 0 0 vc_trace"

text \<open>
  Two states that no run reaches, since no set of \<open>L1\<close> ever counts as full and nothing
  is ever put into the victim cache; they are built to see what the code does there.
  In \<open>full_set_state\<close> the one set of \<open>L1\<close> holds the dirty block of address 0 and no
  other node, so that \<open>isFull\<close> holds; in \<open>victim_state\<close> the victim cache has been
  given the block of address \<open>0x40\<close> by its own \<open>insertBlock\<close>.
\<close>

definition full_set_state :: Hierarchy where
  "full_set_state =
     \<lparr>L1 = (projr (Cache_init 32 1 32))
             \<lparr>sets := [\<lparr>blocks = [(0, \<lparr>tag = 0, valid = True, dirty = True\<rparr>)],
                        blockMap = [(0, 0)], nextNode = 1\<rparr>]\<rparr>,
      L2 = None, VC = Some (VictimCache_init 1)\<rparr>"

definition full_set_run :: "error + Hierarchy" where
  "full_set_run = simulateCacheHierarchy full_set_state [(CHR ''w'', 0x20), (CHR ''r'', 0x0)]"

definition victim_state :: Hierarchy where
  "victim_state =
     \<lparr>L1 = projr (Cache_init 32 1 32), L2 = None,
      VC = Some (insertBlock (VictimCache_init 1) \<lparr>tag = 0x40, valid = True, dirty = False\<rparr>)\<rparr>"

definition victim_run :: "error + Hierarchy" where
  "victim_run = processEvent victim_state (CHR ''r'', 0x40)"

text \<open>
  Two writes to different blocks of the one set of a direct-mapped \<open>L1\<close>, and the same
  at the level of one set: a \<open>CacheSet\<close> of associativity 1 into which the blocks with
  tags 5 and 6 are inserted, each after \<open>findBlock\<close> found nothing and \<open>isFull\<close>
  answered no, as \<open>writeToCache\<close> does it.
\<close>

definition two_writes_run :: "error + Hierarchy" where
  "two_writes_run = main 32 1 32 0 0 0 [(CHR ''w'', 0x0), (CHR ''w'', 0x20)]"

definition one_insert :: CacheSet where
  "one_insert = insertBlock (CacheSet_init 1) \<lparr>tag = 5, valid = True, dirty = True\<rparr>"

definition two_inserts :: CacheSet where
  "two_inserts = insertBlock one_insert \<lparr>tag = 6, valid = True, dirty = True\<rparr>"

text \<open>
  The same two insertions with \<open>evictLRU\<close> between them, as a caller does who counts
  the one resident block of a set of associativity 1 as a full set.
\<close>

definition evict_then_insert :: CacheSet where
  "evict_then_insert =
     insertBlock (snd (projr (evictLRU one_insert))) \<lparr>tag = 6, valid = True, dirty = True\<rparr>"

text \<open>A set of associativity 2 that holds the one block with tag 0.\<close>

definition tag0_insert :: CacheSet where
  "tag0_insert = insertBlock (CacheSet_init 2) \<lparr>tag = 0, valid = True, dirty = True\<rparr>"

text \<open>
  A small \<open>L1\<close> of two direct-mapped sets after the write \<open>w 0\<close>, and then the read
  \<open>r 0\<close>, which hits, or the read \<open>r 40\<close>, which misses in the same set.
\<close>

definition small_setup :: "error + Hierarchy" where
  "small_setup = main_caches 64 1 32 0 0 0"

definition small_after_write :: "error + Hierarchy" where
  "small_after_write = simulateCacheHierarchy (projr small_setup) [(CHR ''w'', 0x0)]"

definition small_read_hit :: "error + Hierarchy" where
  "small_read_hit = processEvent (projr small_after_write) (CHR ''r'', 0x0)"

definition small_read_miss :: "error + Hierarchy" where
  "small_read_miss = processEvent (projr small_after_write) (CHR ''r'', 0x40)"

section \<open>Arithmetic of the machine types\<close>

lemma to_ulong_nonneg: 
  assumes "0 \<le> sint k" shows "unat (to_ulong k) = nat (sint k)"
proof -
  have "sint k < 2 ^ 31" using sint_lt [of k] by simp
  then have "sint k < 2 ^ 64" by simp
  then have tb: "take_bit 64 (sint k) = sint k" using assms by (simp add: take_bit_int_eq_self)
  have "unat (word_of_int (sint k) :: ulong) = nat (take_bit 64 (sint k))"
    using unsigned_of_int [where ?'a = nat and ?'b = 64, of "sint k"] by simp
  then show ?thesis
    unfolding to_ulong_def scast_eq tb .
qed

lemma sint_mul_in_range:
  "int_in_range (sint a * sint b) \<Longrightarrow> sint (a * b :: cint) = sint a * sint b"
  by (simp add: int_in_range_def sint_word_ariths signed_take_bit_int_eq_self)


lemma int_mul_pos:
  assumes "0 < sint a" "0 < sint b" "sint a * sint b < 2 ^ 31"
  shows "int_mul a b = Inr (a * b)" and "sint (a * b) = sint a * sint b"
proof -
  have "0 \<le> sint a * sint b" using assms by simp
  then have r: "int_in_range (sint a * sint b)"
    unfolding int_in_range_def using assms(3) by linarith
  then show "int_mul a b = Inr (a * b)" by (simp add: int_mul_def)
  show "sint (a * b) = sint a * sint b" using r by (rule sint_mul_in_range)
qed

lemma nat_block_iff:
  fixes q1 q2 N :: nat
  shows "(q1 mod N = q2 mod N \<and> q1 div N = q2 div N) \<longleftrightarrow> q1 = q2"
  by (metis div_mult_mod_eq)

lemma int_incr_Inr: "int_incr n = Inr r \<Longrightarrow> r = n + 1"
  by (simp add: int_incr_def split: if_splits)

section \<open>Construction\<close>



section \<open>Address decomposition\<close>

text \<open>
  C2. In a cache whose block size and number of sets are positive (their product within
  \<open>int\<close>, as it is whenever the constructor computed \<open>numSets\<close> from positive
  arguments), both divisions succeed for every address, the set index is
  \<open>(address / blockSize) mod numSets\<close> and the tag is
  \<open>address / (blockSize * numSets)\<close>, and two addresses receive the same pair of set
  index and tag exactly when \<open>address / blockSize\<close> is the same for both.
\<close>

theorem decomposition_same_block_iff:
  assumes bs: "0 <s blockSize c" and ns: "0 <s numSets c"
    and prod: "sint (blockSize c) * sint (numSets c) < 2 ^ 31"
  shows "\<exists>s1 t1 s2 t2.
      setIndex_of c a1 = Inr s1 \<and> tag_of c a1 = Inr t1
    \<and> setIndex_of c a2 = Inr s2 \<and> tag_of c a2 = Inr t2
    \<and> unat s1 = (unat a1 div nat (sint (blockSize c))) mod nat (sint (numSets c))
    \<and> unat t1 = unat a1 div (nat (sint (blockSize c)) * nat (sint (numSets c)))
    \<and> ((s1 = s2 \<and> t1 = t2) \<longleftrightarrow>
         unat a1 div nat (sint (blockSize c)) = unat a2 div nat (sint (blockSize c)))"
proof -
  define B where "B = nat (sint (blockSize c))"
  define N where "N = nat (sint (numSets c))"
  have Bpos: "0 < sint (blockSize c)" and Npos: "0 < sint (numSets c)"
    using bs ns by (simp_all add: word_sless_alt)
  have uB: "unat (to_ulong (blockSize c)) = B" and uN: "unat (to_ulong (numSets c)) = N"
    using Bpos Npos by (simp_all add: to_ulong_nonneg B_def N_def)
  have B0: "0 < B" and N0: "0 < N" using Bpos Npos by (simp_all add: B_def N_def)
  have nzB: "to_ulong (blockSize c) \<noteq> 0" using uB B0 by (metis less_irrefl unat_0)
  have nzN: "to_ulong (numSets c) \<noteq> 0" using uN N0 by (metis less_irrefl unat_0)
  have mul: "int_mul (blockSize c) (numSets c) = Inr (blockSize c * numSets c)"
    and sp: "sint (blockSize c * numSets c) = sint (blockSize c) * sint (numSets c)"
    using int_mul_pos [OF Bpos Npos prod] by simp_all
  have uP: "unat (to_ulong (blockSize c * numSets c)) = B * N"
    using Bpos Npos by (simp add: to_ulong_nonneg sp B_def N_def nat_mult_distrib)
  have nzP: "to_ulong (blockSize c * numSets c) \<noteq> 0"
    using uP B0 N0 by (metis less_irrefl mult_pos_pos unat_0)
  have si: "setIndex_of c a = Inr ((a div to_ulong (blockSize c)) mod to_ulong (numSets c))"
    for a
    using nzB nzN by (simp add: setIndex_of_def)
  have tg: "tag_of c a = Inr (a div to_ulong (blockSize c * numSets c))" for a
    using nzP by (simp add: tag_of_def mul)
  have usi: "unat ((a div to_ulong (blockSize c)) mod to_ulong (numSets c))
      = (unat a div B) mod N" for a
    by (simp add: unat_mod unat_div uB uN)
  have utg: "unat (a div to_ulong (blockSize c * numSets c)) = unat a div (B * N)" for a
    by (simp add: unat_div uP)
  have "((a1 div to_ulong (blockSize c)) mod to_ulong (numSets c)
          = (a2 div to_ulong (blockSize c)) mod to_ulong (numSets c)
       \<and> a1 div to_ulong (blockSize c * numSets c) = a2 div to_ulong (blockSize c * numSets c))
     \<longleftrightarrow> ((unat a1 div B) mod N = (unat a2 div B) mod N
          \<and> unat a1 div (B * N) = unat a2 div (B * N))"
    by (metis usi utg word_unat_eq_iff)
  also have "\<dots> \<longleftrightarrow> ((unat a1 div B) mod N = (unat a2 div B) mod N
          \<and> (unat a1 div B) div N = (unat a2 div B) div N)"
    by (simp add: div_mult2_eq)
  also have "\<dots> \<longleftrightarrow> unat a1 div B = unat a2 div B"
    by (rule nat_block_iff)
  finally show ?thesis
    by (simp add: si tg usi utg B_def [symmetric] N_def [symmetric])
qed

theorem decomposition_same_block_iff_witness:
  "0 <s blockSize scenario_cache \<and> 0 <s numSets scenario_cache
   \<and> sint (blockSize scenario_cache) * sint (numSets scenario_cache) < 2 ^ 31
   \<and> (\<exists>s1 t1 s2 t2.
        setIndex_of scenario_cache 0x420 = Inr s1 \<and> tag_of scenario_cache 0x420 = Inr t1
      \<and> setIndex_of scenario_cache 0x43F = Inr s2 \<and> tag_of scenario_cache 0x43F = Inr t2
      \<and> unat s1 = 1 \<and> unat t1 = 1 \<and> s1 = s2 \<and> t1 = t2)"
proof -
  have h1: "0 <s blockSize scenario_cache" and h2: "0 <s numSets scenario_cache"
    and h3: "sint (blockSize scenario_cache) * sint (numSets scenario_cache) < 2 ^ 31"
    unfolding scenario_cache_def by code_simp+
  have b: "nat (sint (blockSize scenario_cache)) = 32"
    and n: "nat (sint (numSets scenario_cache)) = 32"
    unfolding scenario_cache_def by code_simp+
  show ?thesis
    using decomposition_same_block_iff [OF h1 h2 h3, of "0x420" "0x43F"] h1 h2 h3
    by (simp add: b n)
qed

section \<open>What one access and one event change\<close>

lemma locate_counters [simp]:
  "locate (c\<lparr>numReads := r\<rparr>) a = locate c a"
  "locate (c\<lparr>numReadMisses := r\<rparr>) a = locate c a"
  "locate (c\<lparr>numWrites := r\<rparr>) a = locate c a"
  "locate (c\<lparr>numWriteMisses := r\<rparr>) a = locate c a"
  "locate (c\<lparr>numWriteBacks := r\<rparr>) a = locate c a"
  by (simp_all add: locate_def setIndex_of_def tag_of_def split: sum.splits)

lemma locate_bound: "locate c a = Inr (i, t) \<Longrightarrow> i < length (sets c)"
  by (auto simp: locate_def split: sum.splits if_splits)

lemma accessCache_result:
  assumes "accessCache c a = Inr (p, c')"
  shows "\<exists>i t. locate c a = Inr (i, t) \<and> p = findBlock (sets c ! i) t
     \<and> (case p of None \<Rightarrow> c' = c
         | Some block \<Rightarrow> \<exists>s'. moveToMRU (sets c ! i) block = Inr s' \<and> c' = c\<lparr>sets := (sets c)[i := s']\<rparr>)"
  using assms
  by (auto simp: accessCache_def split: sum.splits option.splits prod.splits)

lemma accessCache_counters:
  assumes "accessCache c a = Inr (p, c')"
  shows "numReads c' = numReads c" "numReadMisses c' = numReadMisses c"
    "numWrites c' = numWrites c" "numWriteMisses c' = numWriteMisses c"
    "numWriteBacks c' = numWriteBacks c" "size_c c' = size_c c" "assoc c' = assoc c"
    "blockSize c' = blockSize c" "numSets c' = numSets c" "length (sets c') = length (sets c)"
  using accessCache_result [OF assms] by (auto split: option.splits)

lemma accessCache_update_counter:
  "accessCache (c\<lparr>numReads := r\<rparr>) a = map_sum id (apsnd (numReads_update (\<lambda>_. r))) (accessCache c a)"
  "accessCache (c\<lparr>numWrites := r\<rparr>) a = map_sum id (apsnd (numWrites_update (\<lambda>_. r))) (accessCache c a)"
  by (auto simp: accessCache_def split: sum.splits option.splits prod.splits)

lemma misses_iff: "misses c a \<longleftrightarrow> accessCache c a = Inr (None, c)"
  by (auto simp: misses_def accessCache_def split: sum.splits option.splits prod.splits)

lemma misses_locate:
  "misses c a \<longleftrightarrow> (\<exists>i t. locate c a = Inr (i, t) \<and> findBlock (sets c ! i) t = None)"
  by (auto simp: misses_def accessCache_def split: sum.splits option.splits prod.splits)

lemma hits_iff: "hits c a \<longleftrightarrow> (\<exists>p c'. accessCache c a = Inr (Some p, c'))"
  by (auto simp: hits_def split: sum.splits option.splits prod.splits)

lemma hits_not_misses: "hits c a \<Longrightarrow> \<not> misses c a"
  by (auto simp: hits_def misses_def split: sum.splits option.splits prod.splits)

lemma misses_numWrites [simp]: "misses (c\<lparr>numWrites := w\<rparr>) a = misses c a"
  by (auto simp: misses_def accessCache_update_counter split: sum.splits option.splits prod.splits)

lemma readEvent_result:
  assumes "readEvent h a = Inr h'"
  shows "\<exists>r p c. int_incr (numReads (L1 h)) = Inr r
     \<and> accessCache ((L1 h)\<lparr>numReads := r\<rparr>) a = Inr (p, c)
     \<and> (case p of Some block \<Rightarrow> L1 h' = c
         | None \<Rightarrow> \<exists>m. int_incr (numReadMisses c) = Inr m \<and> L1 h' = c\<lparr>numReadMisses := m\<rparr>)"
  using assms
  by (auto simp: readEvent_def split: sum.splits option.splits prod.splits)

lemma readEvent_miss:
  assumes "readEvent h a = Inr h'" "misses (L1 h) a"
  shows "\<exists>r m. int_incr (numReads (L1 h)) = Inr r \<and> int_incr (numReadMisses (L1 h)) = Inr m
     \<and> L1 h' = (L1 h)\<lparr>numReads := r, numReadMisses := m\<rparr>
     \<and> (case VC h of None \<Rightarrow> VC h' = None \<and> L2 h' = L2 h
         | Some vc \<Rightarrow>
            (case findBlock vc a of
               Some p \<Rightarrow> (\<exists>vc'. moveToMRU vc p = Inr vc' \<and> VC h' = Some vc') \<and> L2 h' = L2 h
             | None \<Rightarrow> VC h' = Some vc \<and>
                 (case L2 h of None \<Rightarrow> L2 h' = None
                  | Some l2 \<Rightarrow> \<exists>p l2'. accessCache l2 a = Inr (p, l2') \<and> L2 h' = Some l2')))"
  using assms
  by (auto simp: readEvent_def misses_iff accessCache_update_counter split: sum.splits option.splits prod.splits)

lemma readEvent_hit:
  assumes "readEvent h a = Inr h'" "hits (L1 h) a"
  shows "VC h' = VC h" "L2 h' = L2 h"
  using assms
  by (auto simp: readEvent_def hits_iff accessCache_update_counter
      split: sum.splits option.splits prod.splits)

lemma readEvent_frame:
  assumes "readEvent h a = Inr h'"
  shows "VC h' = VC h
      \<or> (\<exists>vc p vc'. VC h = Some vc \<and> findBlock vc a = Some p \<and> moveToMRU vc p = Inr vc'
            \<and> VC h' = Some vc')"
    and "L2 h' = L2 h
      \<or> (\<exists>l2 p l2'. L2 h = Some l2 \<and> accessCache l2 a = Inr (p, l2') \<and> L2 h' = Some l2')"
  using assms
  by (auto simp: readEvent_def split: sum.splits option.splits prod.splits)

lemma writeToCache_cases:
  assumes "locate c a = Inr (i, t)"
  shows "findBlock (sets c ! i) t = Some block \<Longrightarrow>
      writeToCache c a =
        (case moveToMRU (sets c ! i) block of
           Inl e \<Rightarrow> Inl e
         | Inr s' \<Rightarrow> Inr (c\<lparr>sets := (sets c)[i := mark_front_dirty s']\<rparr>))"
    and "findBlock (sets c ! i) t = None \<Longrightarrow> \<not> isFull (sets c ! i) \<Longrightarrow>
      writeToCache c a =
        Inr (c\<lparr>sets := (sets c)[i := insertBlock (sets c ! i) \<lparr>tag = t, valid = True, dirty = True\<rparr>]\<rparr>)"
    and "findBlock (sets c ! i) t = None \<Longrightarrow> isFull (sets c ! i) \<Longrightarrow>
      writeToCache c a =
        (case evictLRU (sets c ! i) of
           Inl e \<Rightarrow> Inl e
         | Inr (evicted, s') \<Rightarrow>
             if dirty evicted then
               (case int_incr (numWriteBacks c) of
                  Inl e \<Rightarrow> Inl e
                | Inr k \<Rightarrow>
                    Inr (c\<lparr>numWriteBacks := k,
                           sets := (sets c)[i := insertBlock s' \<lparr>tag = t, valid = True, dirty = True\<rparr>]\<rparr>))
             else Inr (c\<lparr>sets := (sets c)[i := insertBlock s' \<lparr>tag = t, valid = True, dirty = True\<rparr>]\<rparr>))"
  using assms by (simp_all add: writeToCache_def Let_def)

lemma writeToCache_counters:
  assumes w: "writeToCache c a = Inr c'"
  shows "numWrites c' = numWrites c" "numWriteMisses c' = numWriteMisses c"
    "numReads c' = numReads c" "numReadMisses c' = numReadMisses c"
proof -
  from w obtain i t where l: "locate c a = Inr (i, t)"
    by (auto simp: writeToCache_def split: sum.splits)
  have "numWrites c' = numWrites c \<and> numWriteMisses c' = numWriteMisses c
      \<and> numReads c' = numReads c \<and> numReadMisses c' = numReadMisses c"
  proof (cases "findBlock (sets c ! i) t")
    case (Some block)
    with w writeToCache_cases(1) [OF l Some] show ?thesis by (auto split: sum.splits)
  next
    case None
    show ?thesis
    proof (cases "isFull (sets c ! i)")
      case True
      with w writeToCache_cases(3) [OF l None True] show ?thesis
        by (auto split: sum.splits prod.splits if_splits)
    next
      case False
      with w writeToCache_cases(2) [OF l None False] show ?thesis by auto
    qed
  qed
  then show "numWrites c' = numWrites c" "numWriteMisses c' = numWriteMisses c"
    "numReads c' = numReads c" "numReadMisses c' = numReadMisses c" by simp_all
qed

lemma writeToCache_miss_front:
  assumes w: "writeToCache c a = Inr c'" and l: "locate c a = Inr (i, t)"
    and f: "findBlock (sets c ! i) t = None"
  shows "snd (hd (blocks (sets c' ! i))) = \<lparr>tag = t, valid = True, dirty = True\<rparr>"
proof (cases "isFull (sets c ! i)")
  case True
  with w writeToCache_cases(3) [OF l f True] locate_bound [OF l] show ?thesis
    by (auto simp: insertBlock_def split: sum.splits prod.splits if_splits)
next
  case False
  with w writeToCache_cases(2) [OF l f False] locate_bound [OF l] show ?thesis
    by (auto simp: insertBlock_def)
qed

lemma writeEvent_result:
  assumes "writeEvent h a = Inr h'"
  shows "\<exists>w p c c1. int_incr (numWrites (L1 h)) = Inr w
     \<and> accessCache ((L1 h)\<lparr>numWrites := w\<rparr>) a = Inr (p, c)
     \<and> (case p of Some block \<Rightarrow> c1 = c
         | None \<Rightarrow> \<exists>m. int_incr (numWriteMisses c) = Inr m \<and> c1 = c\<lparr>numWriteMisses := m\<rparr>)
     \<and> writeToCache c1 a = Inr (L1 h') \<and> h' = h\<lparr>L1 := L1 h'\<rparr>"
  using assms
  by (auto simp: writeEvent_def split: sum.splits option.splits prod.splits)

lemma writeEvent_frame:
  assumes "writeEvent h a = Inr h'"
  shows "VC h' = VC h" "L2 h' = L2 h"
  using assms
  by (auto simp: writeEvent_def split: sum.splits option.splits prod.splits)

section \<open>The end-to-end scenario\<close>

text \<open>
  C7, as the specification states it: the scenario ends with reads = 3, read misses = 2,
  writes = 1 and write misses = 0. The program does not: no read allocates a block, so
  the third read misses as the first two did, and the write to address 0 finds its set
  still without a resident block.
\<close>

theorem scenario_counters_counterexample:
  "\<not> (\<not> isl scenario_run
      \<and> numReads (L1 (projr scenario_run)) = 3
      \<and> numReadMisses (L1 (projr scenario_run)) = 2
      \<and> numWrites (L1 (projr scenario_run)) = 1
      \<and> numWriteMisses (L1 (projr scenario_run)) = 0)"
  unfolding scenario_run_def scenario_trace_def by code_simp

text \<open>
  C7, amended: the scenario runs to its end and leaves reads = 3, read misses = 3,
  writes = 1, write misses = 1 (and no write-back).
\<close>

theorem scenario_counters:
  "\<not> isl scenario_run
   \<and> numReads (L1 (projr scenario_run)) = 3
   \<and> numReadMisses (L1 (projr scenario_run)) = 3
   \<and> numWrites (L1 (projr scenario_run)) = 1
   \<and> numWriteMisses (L1 (projr scenario_run)) = 1
   \<and> numWriteBacks (L1 (projr scenario_run)) = 0"
  unfolding scenario_run_def scenario_trace_def by code_simp

section \<open>What the loop never fills\<close>

lemma maps_empty_init:
  assumes "main_caches s1 a1 b1 v s2 a2 = Inr h0"
  shows "maps_empty h0"
  using assms
  by (auto simp: main_caches_def maps_empty_def Cache_init_def VictimCache_init_def
      CacheSet_init_def list_all_iff split: sum.splits if_splits)

lemma accessCache_empty:
  assumes "list_all (\<lambda>s. blockMap s = []) (sets c)" "accessCache c a = Inr r"
  shows "r = (None, c)"
proof -
  obtain p c' where r: "r = (p, c')" by (cases r)
  from accessCache_result [OF assms(2) [unfolded r]]
  obtain i t where l: "locate c a = Inr (i, t)" and p: "p = findBlock (sets c ! i) t"
    and c': "case p of None \<Rightarrow> c' = c | Some block \<Rightarrow> \<exists>s'. moveToMRU (sets c ! i) block = Inr s' \<and> c' = c\<lparr>sets := (sets c)[i := s']\<rparr>"
    by blast
  from l have "i < length (sets c)"
    by (auto simp: locate_def split: sum.splits if_splits)
  with assms(1) have "blockMap (sets c ! i) = []" by (simp add: list_all_length)
  then have "p = None" using p by (simp add: findBlock_def)
  with c' r show ?thesis by simp
qed

lemma maps_empty_step:
  assumes e: "maps_empty h" and ev: "processEvent h ev = Inr h'"
  shows "maps_empty h'"
proof -
  consider (r) "readEvent h (snd ev) = Inr h'"
    | (w) "writeEvent h (snd ev) = Inr h'" | (o) "h' = h"
    using ev unfolding processEvent_def
    by (cases "fst ev = CHR ''r''"; cases "fst ev = CHR ''w''") simp_all
  then show ?thesis
  proof cases
    case r
    have "VC h' = VC h"
      using readEvent_frame(1) [OF r] e by (auto simp: maps_empty_def findBlock_def)
    moreover have "L2 h' = L2 h"
      using readEvent_frame(2) [OF r] e
      by (auto simp: maps_empty_def dest: accessCache_empty)
    ultimately show ?thesis using e by (simp add: maps_empty_def)
  next
    case w
    then show ?thesis using e writeEvent_frame [OF w] by (simp add: maps_empty_def)
  next
    case o
    then show ?thesis using e by simp
  qed
qed

lemma maps_empty_run:
  "maps_empty h \<Longrightarrow> simulateCacheHierarchy h evs = Inr h' \<Longrightarrow> maps_empty h'"
proof (induction evs arbitrary: h)
  case Nil
  then show ?case by simp
next
  case (Cons ev evs)
  then show ?case by (auto split: sum.splits dest: maps_empty_step)
qed

lemma run_prefix:
  "simulateCacheHierarchy h evs = Inr hf \<Longrightarrow> \<exists>h'. simulateCacheHierarchy h (take n evs) = Inr h'"
proof (induction evs arbitrary: h n)
  case Nil
  then show ?case by simp
next
  case (Cons ev evs)
  show ?case
  proof (cases n)
    case 0
    then show ?thesis by simp
  next
    case (Suc m)
    with Cons show ?thesis by (auto split: sum.splits)
  qed
qed

lemma read_frame_empty:
  assumes e: "maps_empty h" and r: "readEvent h a = Inr h'"
  shows "VC h' = VC h" "L2 h' = L2 h"
proof -
  show "VC h' = VC h"
    using readEvent_frame(1) [OF r] e by (auto simp: maps_empty_def findBlock_def)
  show "L2 h' = L2 h"
    using readEvent_frame(2) [OF r] e by (auto simp: maps_empty_def dest: accessCache_empty)
qed

text \<open>
  C9. From the caches \<open>main\<close> builds, at every point of every run that reaches its
  end, the tag map of the victim cache and the tag maps of all sets of \<open>L2\<close> are
  empty; so \<open>findBlock\<close> of the victim cache finds nothing for any address, and every
  \<open>accessCache\<close> of \<open>L2\<close> that returns, returns \<open>nullptr\<close> and leaves \<open>L2\<close> as it
  was.
\<close>

theorem L2_and_victim_cache_stay_empty:
  assumes init: "main_caches L1_SIZE L1_ASSOC L1_BLOCKSIZE VC_NUM_BLOCKS L2_SIZE L2_ASSOC = Inr h0"
    and run: "simulateCacheHierarchy h0 trace = Inr hf"
  shows "\<exists>h. simulateCacheHierarchy h0 (take n trace) = Inr h \<and> maps_empty h
     \<and> (\<forall>vc address. VC h = Some vc \<longrightarrow> findBlock vc address = None)
     \<and> (\<forall>l2 address r. L2 h = Some l2 \<longrightarrow> accessCache l2 address = Inr r \<longrightarrow> r = (None, l2))"
proof -
  from run_prefix [OF run] obtain h where h: "simulateCacheHierarchy h0 (take n trace) = Inr h"
    by blast
  have e: "maps_empty h" using maps_empty_run [OF maps_empty_init [OF init] h] .
  have "findBlock vc address = None" if "VC h = Some vc" for vc address
    using e that by (simp add: maps_empty_def findBlock_def)
  moreover have "r = (None, l2)" if "L2 h = Some l2" "accessCache l2 address = Inr r" for l2 address r
    using e that accessCache_empty [of l2 address r] by (simp add: maps_empty_def)
  ultimately show ?thesis using h e by blast
qed

theorem L2_and_victim_cache_stay_empty_witness:
  "main_caches 1024 1 32 1 2048 1 = Inr (projr vc_l2_setup)
   \<and> simulateCacheHierarchy (projr vc_l2_setup) [(CHR ''w'', 0x0), (CHR ''r'', 0x400), (CHR ''r'', 0x0)]
       = Inr (projr (main 1024 1 32 1 2048 1 [(CHR ''w'', 0x0), (CHR ''r'', 0x400), (CHR ''r'', 0x0)]))
   \<and> maps_empty (projr (simulateCacheHierarchy (projr vc_l2_setup)
        (take 2 [(CHR ''w'', 0x0), (CHR ''r'', 0x400), (CHR ''r'', 0x0)])))"
proof -
  have h1: "main_caches 1024 1 32 1 2048 1 = Inr (projr vc_l2_setup)"
    unfolding vc_l2_setup_def by code_simp
  have h2: "simulateCacheHierarchy (projr vc_l2_setup) [(CHR ''w'', 0x0), (CHR ''r'', 0x400), (CHR ''r'', 0x0)]
       = Inr (projr (main 1024 1 32 1 2048 1 [(CHR ''w'', 0x0), (CHR ''r'', 0x400), (CHR ''r'', 0x0)]))"
    unfolding vc_l2_setup_def by code_simp
  from L2_and_victim_cache_stay_empty [OF h1 h2, of 2]
  show ?thesis using h1 h2 by auto
qed

section \<open>The second level\<close>

text \<open>
  C5, as the specification states it: a read that misses in \<open>L1\<close>, with no victim cache
  or a miss there, is passed to \<open>L2\<close> and counted in the reads and read misses of
  \<open>L2\<close>. Without a victim cache the read \<open>r 0\<close> misses in \<open>L1\<close> and leaves \<open>L2\<close> as
  it was built; with a victim cache of one block the counters of \<open>L2\<close> are still 0
  after it.
\<close>

theorem L2_statistics_counterexample:
  "\<not> isl l2_only_run
   \<and> numReadMisses (L1 (projr l2_only_run)) = 1
   \<and> L2 (projr l2_only_run) = L2 (projr l2_only_setup)
   \<and> numReads (the (L2 (projr l2_only_run))) = 0
   \<and> numReadMisses (the (L2 (projr l2_only_run))) = 0
   \<and> \<not> isl vc_l2_run
   \<and> numReadMisses (L1 (projr vc_l2_run)) = 1
   \<and> numReads (the (L2 (projr vc_l2_run))) = 0
   \<and> numReadMisses (the (L2 (projr vc_l2_run))) = 0"
  unfolding l2_only_run_def l2_only_setup_def vc_l2_run_def by code_simp

text \<open>
  C5, amended: a read that misses in \<open>L1\<close> and then in the victim cache that is present
  is passed to \<open>accessCache\<close> of \<open>L2\<close>, when there is one, and that call leaves all
  five counters of \<open>L2\<close> as they were.
\<close>

theorem read_miss_reaches_L2_behind_victim_cache:
  assumes ev: "processEvent h (CHR ''r'', a) = Inr h'"
    and l1: "misses (L1 h) a"
    and vc: "VC h = Some vc" "findBlock vc a = None"
    and l2: "L2 h = Some l2"
  shows "\<exists>p l2'. accessCache l2 a = Inr (p, l2') \<and> L2 h' = Some l2'
     \<and> numReads l2' = numReads l2 \<and> numReadMisses l2' = numReadMisses l2
     \<and> numWrites l2' = numWrites l2 \<and> numWriteMisses l2' = numWriteMisses l2
     \<and> numWriteBacks l2' = numWriteBacks l2"
proof -
  from ev have "readEvent h a = Inr h'" by (simp add: processEvent_def)
  from readEvent_miss [OF this l1] vc l2
  obtain p l2' where a: "accessCache l2 a = Inr (p, l2')" and b: "L2 h' = Some l2'"
    by auto
  show ?thesis using a b accessCache_counters [OF a] by simp
qed

theorem read_miss_reaches_L2_behind_victim_cache_witness:
  "processEvent (projr vc_l2_setup) (CHR ''r'', 0x0) = Inr (projr vc_l2_run)
   \<and> misses (L1 (projr vc_l2_setup)) 0x0
   \<and> VC (projr vc_l2_setup) = Some (VictimCache_init 1)
   \<and> findBlock (VictimCache_init 1) 0x0 = None
   \<and> L2 (projr vc_l2_setup) = Some (projr (Cache_init 2048 1 32))
   \<and> numReads (the (L2 (projr vc_l2_run))) = numReads (projr (Cache_init 2048 1 32))
   \<and> numReadMisses (the (L2 (projr vc_l2_run))) = numReadMisses (projr (Cache_init 2048 1 32))"
proof -
  have h1: "processEvent (projr vc_l2_setup) (CHR ''r'', 0x0) = Inr (projr vc_l2_run)"
    unfolding vc_l2_setup_def vc_l2_run_def by code_simp
  have h2: "misses (L1 (projr vc_l2_setup)) 0x0"
    unfolding vc_l2_setup_def by code_simp
  have h3: "VC (projr vc_l2_setup) = Some (VictimCache_init 1)"
    unfolding vc_l2_setup_def by code_simp
  have h4: "findBlock (VictimCache_init 1) 0x0 = None"
    by code_simp
  have h5: "L2 (projr vc_l2_setup) = Some (projr (Cache_init 2048 1 32))"
    unfolding vc_l2_setup_def by code_simp
  from read_miss_reaches_L2_behind_victim_cache [OF h1 h2 h3 h4 h5]
  show ?thesis using h1 h2 h3 h4 h5 by auto
qed

section \<open>The victim cache\<close>

text \<open>
  C4, as the specification states it: a block evicted from \<open>L1\<close> goes into the victim
  cache, a later access to its address hits there, and a hit in the victim cache moves
  the block back into \<open>L1\<close>. In the run \<open>w 0\<close>, \<open>w 20\<close>, \<open>r 0\<close> on one set of
  associativity 1 nothing is evicted, the victim cache is as it was built and the read
  hits in \<open>L1\<close>. From \<open>full_set_state\<close>, where \<open>isFull\<close> holds, the write to \<open>0x20\<close>
  evicts the dirty block of address 0 (one write-back), the victim cache stays as built,
  and the read of address 0 misses in \<open>L1\<close> and finds nothing in the victim cache. From
  \<open>victim_state\<close> the read of \<open>0x40\<close> misses in \<open>L1\<close> and hits in the victim cache:
  the sets of \<open>L1\<close> are unchanged and the block is still in the victim cache.
\<close>

theorem victim_cache_swap_counterexample:
  "\<not> isl vc_run
   \<and> VC (projr vc_run) = Some (VictimCache_init 1)
   \<and> numWriteBacks (L1 (projr vc_run)) = 0
   \<and> numReadMisses (L1 (projr vc_run)) = 0
   \<and> isFull (hd (sets (L1 full_set_state)))
   \<and> \<not> isl full_set_run
   \<and> numWriteBacks (L1 (projr full_set_run)) = 1
   \<and> numReadMisses (L1 (projr full_set_run)) = 1
   \<and> VC (projr full_set_run) = Some (VictimCache_init 1)
   \<and> findBlock (VictimCache_init 1) 0x0 = None
   \<and> misses (L1 victim_state) 0x40
   \<and> findBlock (the (VC victim_state)) 0x40 = Some 1
   \<and> \<not> isl victim_run
   \<and> sets (L1 (projr victim_run)) = sets (L1 victim_state)
   \<and> map snd (blocks (the (VC (projr victim_run))))
       = [\<lparr>tag = 0x40, valid = True, dirty = False\<rparr>, CacheBlock_default]"
  unfolding vc_run_def vc_trace_def full_set_run_def full_set_state_def victim_run_def
    victim_state_def
  by code_simp

text \<open>
  C4, amended: with a victim cache present, a write event leaves it as it is, whatever
  \<open>L1\<close> evicts, and so does a read that hits in \<open>L1\<close>; a read that misses in \<open>L1\<close>
  leaves the sets of \<open>L1\<close> as they are and looks the address itself up in the victim
  cache, where a block that is found is moved to the front by \<open>moveToMRU\<close> and nothing
  else changes.
\<close>

theorem victim_cache_only_promoted:
  assumes ev: "processEvent h (op, a) = Inr h'" and vc: "VC h = Some vc"
  shows "(op = CHR ''w'' \<longrightarrow> VC h' = Some vc)
     \<and> (op = CHR ''r'' \<longrightarrow> hits (L1 h) a \<longrightarrow> VC h' = Some vc)
     \<and> (op = CHR ''r'' \<longrightarrow> misses (L1 h) a \<longrightarrow>
          sets (L1 h') = sets (L1 h)
          \<and> (case findBlock vc a of
                None \<Rightarrow> VC h' = Some vc
              | Some victimBlock \<Rightarrow>
                  \<exists>vc'. moveToMRU vc victimBlock = Inr vc' \<and> VC h' = Some vc'))"
proof -
  have w: "VC h' = Some vc" if "op = CHR ''w''"
  proof -
    from ev that have "writeEvent h a = Inr h'" by (simp add: processEvent_def)
    from writeEvent_frame(1) [OF this] vc show ?thesis by simp
  qed
  have rh: "VC h' = Some vc" if "op = CHR ''r''" and hit: "hits (L1 h) a"
  proof -
    from ev that have "readEvent h a = Inr h'" by (simp add: processEvent_def)
    from readEvent_hit(1) [OF this hit] vc show ?thesis by simp
  qed
  have rm: "sets (L1 h') = sets (L1 h)
          \<and> (case findBlock vc a of
                None \<Rightarrow> VC h' = Some vc
              | Some victimBlock \<Rightarrow>
                  \<exists>vc'. moveToMRU vc victimBlock = Inr vc' \<and> VC h' = Some vc')"
    if "op = CHR ''r''" and miss: "misses (L1 h) a"
  proof -
    from ev that have r: "readEvent h a = Inr h'" by (simp add: processEvent_def)
    from readEvent_miss [OF r miss] vc show ?thesis by (auto split: option.splits)
  qed
  from w rh rm show ?thesis by blast
qed

theorem victim_cache_only_promoted_witness:
  "processEvent victim_state (CHR ''r'', 0x40) = Inr (projr victim_run)
   \<and> VC victim_state
       = Some (insertBlock (VictimCache_init 1) \<lparr>tag = 0x40, valid = True, dirty = False\<rparr>)
   \<and> misses (L1 victim_state) 0x40
   \<and> sets (L1 (projr victim_run)) = sets (L1 victim_state)"
proof -
  have h1: "processEvent victim_state (CHR ''r'', 0x40) = Inr (projr victim_run)"
    unfolding victim_run_def victim_state_def by code_simp
  have h2: "VC victim_state
       = Some (insertBlock (VictimCache_init 1) \<lparr>tag = 0x40, valid = True, dirty = False\<rparr>)"
    by (simp add: victim_state_def)
  have h3: "misses (L1 victim_state) 0x40"
    unfolding victim_state_def by code_simp
  from victim_cache_only_promoted [OF h1 h2] h3
  show ?thesis using h1 h2 by simp
qed

section \<open>Sets that never count as full\<close>

text \<open>
  The constructor of \<open>CacheSet\<close> puts \<open>assoc\<close> default blocks into the list and none
  into the map; every insertion adds one node and one entry, every promotion keeps both
  counts. So \<open>blockMap.size() == blocks.size()\<close> never holds in a cache of positive
  associativity: \<open>evictLRU\<close> is never called and nothing is ever written back.
\<close>

lemma length_erase:
  "map_of xs it = Some y \<Longrightarrow> Suc (length (erase it xs)) = length xs"
  by (induction xs) (auto split: if_splits)

lemma length_update_known:
  "map_of al k = Some v \<Longrightarrow> length (AList.update k w al) = length al"
  by (induction al) (auto split: if_splits)

lemma length_update_new:
  "map_of al k = None \<Longrightarrow> length (AList.update k w al) = Suc (length al)"
  by (induction al) (auto split: if_splits)

lemma moveToMRU_lengths:
  assumes "moveToMRU s p = Inr s'"
  shows "length (blocks s') = length (blocks s)" "length (blockMap s') = length (blockMap s)"
  using assms
  by (auto simp: moveToMRU_def length_update_known length_erase
      split: option.splits if_splits)

lemma insertBlock_lengths:
  assumes "findBlock s (tag b) = None"
  shows "length (blocks (insertBlock s b)) = Suc (length (blocks s))"
    "length (blockMap (insertBlock s b)) = Suc (length (blockMap s))"
  using assms by (simp_all add: insertBlock_def findBlock_def length_update_new)

lemma surplus_nodes_init:
  "Cache_init sz a bs = Inr c \<Longrightarrow> surplus_nodes c"
  by (auto simp: Cache_init_def surplus_nodes_def CacheSet_init_def default_blocks_def
      list_all_iff split: sum.splits if_splits)

lemma surplus_nodes_update:
  assumes "surplus_nodes c" "i < length (sets c)"
    "length (blocks s') = length (blockMap s') + nat (sint (assoc c))"
  shows "list_all (\<lambda>s. length (blocks s) = length (blockMap s) + nat (sint (assoc c)))
           ((sets c)[i := s'])"
  using assms by (auto simp: surplus_nodes_def list_all_iff dest!: set_update_subset_insert [THEN subsetD])

lemma surplus_nodes_counters [simp]:
  "surplus_nodes (c\<lparr>numReads := r\<rparr>) = surplus_nodes c"
  "surplus_nodes (c\<lparr>numReadMisses := r\<rparr>) = surplus_nodes c"
  "surplus_nodes (c\<lparr>numWrites := r\<rparr>) = surplus_nodes c"
  "surplus_nodes (c\<lparr>numWriteMisses := r\<rparr>) = surplus_nodes c"
  "surplus_nodes (c\<lparr>numWriteBacks := r\<rparr>) = surplus_nodes c"
  by (simp_all add: surplus_nodes_def)

lemma surplus_nodes_nth:
  "surplus_nodes c \<Longrightarrow> i < length (sets c) \<Longrightarrow>
   length (blocks (sets c ! i)) = length (blockMap (sets c ! i)) + nat (sint (assoc c))"
  by (simp add: surplus_nodes_def list_all_length)

lemma surplus_nodes_access:
  assumes inv: "surplus_nodes c" and acc: "accessCache c a = Inr (p, c')"
  shows "surplus_nodes c'"
proof -
  from accessCache_result [OF acc]
  obtain i t where l: "locate c a = Inr (i, t)"
    and c': "case p of None \<Rightarrow> c' = c
         | Some block \<Rightarrow> \<exists>s'. moveToMRU (sets c ! i) block = Inr s' \<and> c' = c\<lparr>sets := (sets c)[i := s']\<rparr>"
    by blast
  show ?thesis
  proof (cases p)
    case None
    with c' inv show ?thesis by simp
  next
    case (Some block)
    with c' obtain s' where m: "moveToMRU (sets c ! i) block = Inr s'"
      and e: "c' = c\<lparr>sets := (sets c)[i := s']\<rparr>" by auto
    have "length (blocks s') = length (blockMap s') + nat (sint (assoc c))"
      using moveToMRU_lengths [OF m] surplus_nodes_nth [OF inv locate_bound [OF l]] by simp
    from surplus_nodes_update [OF inv locate_bound [OF l] this]
    show ?thesis by (simp add: e surplus_nodes_def)
  qed
qed

lemma not_full:
  assumes "surplus_nodes c" "0 < sint (assoc c)" "i < length (sets c)"
  shows "\<not> isFull (sets c ! i)"
  using surplus_nodes_nth [OF assms(1,3)] assms(2) by (simp add: isFull_def)

lemma mark_front_dirty_lengths [simp]:
  "length (blocks (mark_front_dirty s)) = length (blocks s)"
  "blockMap (mark_front_dirty s) = blockMap s"
  by (simp_all add: mark_front_dirty_def split: list.splits)

lemma surplus_nodes_write:
  assumes inv: "surplus_nodes c" and pos: "0 < sint (assoc c)"
    and w: "writeToCache c a = Inr c'"
  shows "surplus_nodes c' \<and> numWriteBacks c' = numWriteBacks c \<and> assoc c' = assoc c"
proof -
  from w obtain i t where l: "locate c a = Inr (i, t)"
    by (auto simp: writeToCache_def split: sum.splits)
  note b = locate_bound [OF l]
  note n = surplus_nodes_nth [OF inv b]
  note nf = not_full [OF inv pos b]
  show ?thesis
  proof (cases "findBlock (sets c ! i) t")
    case None
    with w l nf have e: "c' = c\<lparr>sets := (sets c)[i := insertBlock (sets c ! i) \<lparr>tag = t, valid = True, dirty = True\<rparr>]\<rparr>"
      by (simp add: writeToCache_def)
    have "length (blocks (insertBlock (sets c ! i) \<lparr>tag = t, valid = True, dirty = True\<rparr>))
        = length (blockMap (insertBlock (sets c ! i) \<lparr>tag = t, valid = True, dirty = True\<rparr>)) + nat (sint (assoc c))"
      using n None by (simp add: insertBlock_lengths)
    from surplus_nodes_update [OF inv b this] show ?thesis by (simp add: e surplus_nodes_def)
  next
    case (Some block)
    with w l obtain s' where m: "moveToMRU (sets c ! i) block = Inr s'"
      and e: "c' = c\<lparr>sets := (sets c)[i := mark_front_dirty s']\<rparr>"
      by (auto simp: writeToCache_def split: sum.splits)
    have "length (blocks (mark_front_dirty s')) = length (blockMap (mark_front_dirty s')) + nat (sint (assoc c))"
      using moveToMRU_lengths [OF m] n by simp
    from surplus_nodes_update [OF inv b this] show ?thesis by (simp add: e surplus_nodes_def)
  qed
qed

lemma quiet_read:
  assumes "quiet h" "readEvent h a = Inr h'"
  shows "quiet h'"
proof -
  from readEvent_result [OF assms(2)]
  obtain r p c where i: "int_incr (numReads (L1 h)) = Inr r"
    and acc: "accessCache ((L1 h)\<lparr>numReads := r\<rparr>) a = Inr (p, c)"
    and l1': "case p of Some block \<Rightarrow> L1 h' = c
         | None \<Rightarrow> \<exists>m. int_incr (numReadMisses c) = Inr m \<and> L1 h' = c\<lparr>numReadMisses := m\<rparr>"
    by blast
  from l1' have l1: "L1 h' = c \<or> (\<exists>m. L1 h' = c\<lparr>numReadMisses := m\<rparr>)"
    by (auto split: option.splits)
  have "surplus_nodes ((L1 h)\<lparr>numReads := r\<rparr>)" using assms(1) by (simp add: quiet_def)
  from surplus_nodes_access [OF this acc] accessCache_counters [OF acc] l1 assms(1)
  show ?thesis by (auto simp: quiet_def)
qed

lemma quiet_write:
  assumes "quiet h" "writeEvent h a = Inr h'"
  shows "quiet h'"
proof -
  from writeEvent_result [OF assms(2)]
  obtain w p c c1 where i: "int_incr (numWrites (L1 h)) = Inr w"
    and acc: "accessCache ((L1 h)\<lparr>numWrites := w\<rparr>) a = Inr (p, c)"
    and c1': "case p of Some block \<Rightarrow> c1 = c
         | None \<Rightarrow> \<exists>m. int_incr (numWriteMisses c) = Inr m \<and> c1 = c\<lparr>numWriteMisses := m\<rparr>"
    and wr: "writeToCache c1 a = Inr (L1 h')"
    by blast
  from c1' have c1: "c1 = c \<or> (\<exists>m. c1 = c\<lparr>numWriteMisses := m\<rparr>)"
    by (auto split: option.splits)
  have "surplus_nodes ((L1 h)\<lparr>numWrites := w\<rparr>)" using assms(1) by (simp add: quiet_def)
  from surplus_nodes_access [OF this acc] accessCache_counters [OF acc] c1 assms(1)
  have "surplus_nodes c1" "0 < sint (assoc c1)" "numWriteBacks c1 = 0"
    by (auto simp: quiet_def)
  from surplus_nodes_write [OF this(1,2) wr] this show ?thesis by (simp add: quiet_def)
qed

lemma quiet_run:
  "quiet h \<Longrightarrow> simulateCacheHierarchy h evs = Inr h' \<Longrightarrow> quiet h'"
proof (induction evs arbitrary: h)
  case Nil
  then show ?case by simp
next
  case (Cons ev evs)
  from Cons.prems(2) obtain h1 where s: "processEvent h ev = Inr h1"
    and r: "simulateCacheHierarchy h1 evs = Inr h'"
    by (auto split: sum.splits)
  have "quiet h1"
    using s Cons.prems(1) unfolding processEvent_def
    by (cases "fst ev = CHR ''r''"; cases "fst ev = CHR ''w''")
       (auto dest: quiet_read quiet_write)
  from Cons.IH [OF this r] show ?case .
qed

lemma L1_never_full:
  assumes init: "main_caches L1_SIZE L1_ASSOC L1_BLOCKSIZE VC_NUM_BLOCKS L2_SIZE L2_ASSOC = Inr h0"
    and pos: "0 <s L1_ASSOC"
    and run: "simulateCacheHierarchy h0 trace = Inr h"
  shows "numWriteBacks (L1 h) = 0" and "\<forall>s \<in> set (sets (L1 h)). \<not> isFull s"
proof -
  from init obtain l1 where c: "Cache_init L1_SIZE L1_ASSOC L1_BLOCKSIZE = Inr l1" and l: "L1 h0 = l1"
    by (auto simp: main_caches_def split: sum.splits)
  have "assoc l1 = L1_ASSOC" "numWriteBacks l1 = 0"
    using c by (auto simp: Cache_init_def split: sum.splits if_splits)
  with surplus_nodes_init [OF c] pos l have "quiet h0"
    by (simp add: quiet_def word_sless_alt)
  from quiet_run [OF this run] have q: "quiet h" .
  then show "numWriteBacks (L1 h) = 0" by (simp add: quiet_def)
  show "\<forall>s \<in> set (sets (L1 h)). \<not> isFull s"
    using q not_full [of "L1 h"] by (auto simp: quiet_def in_set_conv_nth)
qed

text \<open>
  The parts of C1 that do not depend on a set being full: a write event adds one to
  \<open>numWrites\<close>, adds one to \<open>numWriteMisses\<close> exactly when the access before the write
  misses, and after a miss the written block is the front node of its set, valid and
  dirty.
\<close>

lemma writeEvent_counts:
  assumes w: "writeEvent h a = Inr h'"
  shows "numWrites (L1 h') = numWrites (L1 h) + 1"
    and "misses (L1 h) a \<Longrightarrow> numWriteMisses (L1 h') = numWriteMisses (L1 h) + 1"
    and "hits (L1 h) a \<Longrightarrow> numWriteMisses (L1 h') = numWriteMisses (L1 h)"
    and "misses (L1 h) a \<Longrightarrow> locate (L1 h) a = Inr (i, t) \<Longrightarrow>
      snd (hd (blocks (sets (L1 h') ! i))) = \<lparr>tag = t, valid = True, dirty = True\<rparr>"
proof -
  from writeEvent_result [OF w]
  obtain ww p c c1 where i: "int_incr (numWrites (L1 h)) = Inr ww"
    and acc: "accessCache ((L1 h)\<lparr>numWrites := ww\<rparr>) a = Inr (p, c)"
    and c1: "case p of Some block \<Rightarrow> c1 = c
         | None \<Rightarrow> \<exists>m. int_incr (numWriteMisses c) = Inr m \<and> c1 = c\<lparr>numWriteMisses := m\<rparr>"
    and wr: "writeToCache c1 a = Inr (L1 h')"
    by blast
  note k = accessCache_counters [OF acc]
  note wc = writeToCache_counters [OF wr]
  have ww: "ww = numWrites (L1 h) + 1" using i by (rule int_incr_Inr)
  show "numWrites (L1 h') = numWrites (L1 h) + 1"
    using wc(1) k(3) c1 ww by (auto split: option.splits)
  have pm: "p = None \<longleftrightarrow> misses (L1 h) a"
    using acc misses_numWrites [where c = "L1 h" and w = ww and a = a]
    by (auto simp: misses_def split: sum.splits option.splits prod.splits)
  show "numWriteMisses (L1 h') = numWriteMisses (L1 h) + 1" if "misses (L1 h) a"
    using that pm wc(2) k(4) c1 by (auto dest!: int_incr_Inr)
  show "numWriteMisses (L1 h') = numWriteMisses (L1 h)" if "hits (L1 h) a"
    using hits_not_misses [OF that] pm wc(2) k(4) c1 by (auto split: option.splits)
  show "snd (hd (blocks (sets (L1 h') ! i))) = \<lparr>tag = t, valid = True, dirty = True\<rparr>"
    if m: "misses (L1 h) a" and l: "locate (L1 h) a = Inr (i, t)"
  proof -
    from m pm have pn: "p = None" by simp
    with acc accessCache_result [OF acc] have ce: "c = (L1 h)\<lparr>numWrites := ww\<rparr>" by auto
    from pn c1 obtain mm where c1e: "c1 = c\<lparr>numWriteMisses := mm\<rparr>" by auto
    have l1: "locate c1 a = Inr (i, t)" using l by (simp add: c1e ce)
    from m l have "findBlock (sets (L1 h) ! i) t = None" by (auto simp: misses_locate)
    then have "findBlock (sets c1 ! i) t = None" by (simp add: c1e ce)
    from writeToCache_miss_front [OF wr l1 this] show ?thesis .
  qed
qed

text \<open>
  C1 describes a write that misses into a full set: the least recently used block is
  evicted and counted as a write-back when dirty. On one set of associativity 1, the
  write \<open>w 20\<close> after \<open>w 0\<close> misses into the set that holds the dirty block of address
  0: nothing is evicted, nothing is written back, and the set holds two valid blocks.
\<close>

theorem full_set_write_does_not_evict:
  "\<not> isl two_writes_run
   \<and> assoc (L1 (projr two_writes_run)) = 1
   \<and> numWrites (L1 (projr two_writes_run)) = 2
   \<and> numWriteMisses (L1 (projr two_writes_run)) = 2
   \<and> numWriteBacks (L1 (projr two_writes_run)) = 0
   \<and> map snd (blocks (hd (sets (L1 (projr two_writes_run)))))
       = [\<lparr>tag = 1, valid = True, dirty = True\<rparr>, \<lparr>tag = 0, valid = True, dirty = True\<rparr>,
          CacheBlock_default]"
  unfolding two_writes_run_def by code_simp

text \<open>
  C3 describes sets of at most \<open>associativity\<close> resident blocks whose map and list
  agree. A set of associativity 1 takes the blocks with tags 5 and 6, each after
  \<open>findBlock\<close> found nothing and \<open>isFull\<close> said no, and then holds two valid blocks and
  two map entries. When \<open>evictLRU\<close> is called between the two insertions, it removes the
  default block the constructor made and leaves the block with tag 5 where it is, so the
  set holds two valid blocks again. In a set of associativity 2 that holds the block with
  tag 0, \<open>evictLRU\<close> pops a default block, whose tag is 0 too, and erases the map entry of
  the resident block, which stays in the list.
\<close>

theorem set_outgrows_associativity:
  "findBlock (CacheSet_init 1) 5 = None \<and> \<not> isFull (CacheSet_init 1)
   \<and> findBlock one_insert 6 = None \<and> \<not> isFull one_insert
   \<and> map snd (blocks two_inserts)
       = [\<lparr>tag = 6, valid = True, dirty = True\<rparr>, \<lparr>tag = 5, valid = True, dirty = True\<rparr>,
          CacheBlock_default]
   \<and> map fst (blockMap two_inserts) = [5, 6]
   \<and> evictLRU one_insert
       = Inr (CacheBlock_default,
              \<lparr>blocks = [(1, \<lparr>tag = 5, valid = True, dirty = True\<rparr>)],
               blockMap = [(5, 1)], nextNode = 2\<rparr>)
   \<and> map snd (blocks evict_then_insert)
       = [\<lparr>tag = 6, valid = True, dirty = True\<rparr>, \<lparr>tag = 5, valid = True, dirty = True\<rparr>]
   \<and> map fst (blockMap evict_then_insert) = [5, 6]
   \<and> findBlock tag0_insert 0 = Some 2
   \<and> evictLRU tag0_insert
       = Inr (CacheBlock_default,
              \<lparr>blocks = [(2, \<lparr>tag = 0, valid = True, dirty = True\<rparr>), (0, CacheBlock_default)],
               blockMap = [], nextNode = 3\<rparr>)"
  unfolding one_insert_def two_inserts_def tag0_insert_def evict_then_insert_def by code_simp

section \<open>The shape of the sets is kept\<close>

lemma wf_set_init: "wf_set (CacheSet_init a)"
  by (auto simp: wf_set_def CacheSet_init_def default_blocks_def comp_def)

lemma keys_erase: "set (map fst (erase it xs)) \<subseteq> set (map fst xs)"
  by (induction xs) auto

lemma erase_absent: "distinct (map fst xs) \<Longrightarrow> it \<notin> set (map fst (erase it xs))"
proof (induction xs)
  case Nil
  then show ?case by simp
next
  case (Cons x xs)
  then show ?case by (cases "fst x = it") auto
qed

lemma distinct_erase: "distinct (map fst xs) \<Longrightarrow> distinct (map fst (erase it xs))"
proof (induction xs)
  case Nil
  then show ?case by simp
next
  case (Cons x xs)
  then show ?case using keys_erase [of it xs] by (cases "fst x = it") auto
qed

lemma map_of_erase_other: "p \<noteq> it \<Longrightarrow> map_of (erase it xs) p = map_of xs p"
  by (induction xs) auto

lemma map_of_erase:
  assumes "distinct (map fst xs)"
  shows "map_of (erase it xs) p = (if p = it then None else map_of xs p)"
proof (cases "p = it")
  case True
  have "it \<notin> fst ` set (erase it xs)" using erase_absent [OF assms, of it] by simp
  then show ?thesis using True by (simp add: map_of_eq_None_iff)
next
  case False
  then show ?thesis by (simp add: map_of_erase_other)
qed

lemma mset_erase:
  "map_of xs it = Some b \<Longrightarrow> add_mset b (mset (map snd (erase it xs))) = mset (map snd xs)"
  by (induction xs) (auto split: if_splits)

lemma map_of_bound:
  assumes "\<forall>n \<in> set (map fst xs). n < k" "map_of xs p = Some b"
  shows "p < k"
proof -
  from assms(2) have "(p, b) \<in> set xs" by (rule map_of_SomeD)
  then have "p \<in> set (map fst xs)" by force
  with assms(1) show ?thesis by blast
qed

lemma moveToMRU_found:
  assumes wf: "wf_set s" and f: "findBlock s t = Some p"
  shows "\<exists>b. map_of (blocks s) p = Some b \<and> tag b = t
     \<and> moveToMRU s p = Inr (s\<lparr>blocks := (nextNode s, b) # erase p (blocks s),
                           blockMap := AList.update t (nextNode s) (blockMap s),
                           nextNode := Suc (nextNode s)\<rparr>)"
proof -
  from wf f obtain b where b: "map_of (blocks s) p = Some b" "tag b = t"
    unfolding wf_set_def findBlock_def by blast
  with f show ?thesis by (simp add: moveToMRU_def findBlock_def)
qed

lemma promoted_wf:
  assumes wf: "wf_set s" and p: "map_of (blockMap s) t = Some p"
    and b: "map_of (blocks s) p = Some b" "tag b = t"
  shows "wf_set (s\<lparr>blocks := (nextNode s, b) # erase p (blocks s),
                  blockMap := AList.update t (nextNode s) (blockMap s),
                  nextNode := Suc (nextNode s)\<rparr>)"
proof -
  have d: "distinct (map fst (blocks s))" and lt: "\<forall>n \<in> set (map fst (blocks s)). n < nextNode s"
    and m: "\<And>t' q. map_of (blockMap s) t' = Some q \<Longrightarrow> \<exists>b'. map_of (blocks s) q = Some b' \<and> tag b' = t'"
    using wf unfolding wf_set_def by blast+
  have fresh: "nextNode s \<notin> set (map fst (erase p (blocks s)))"
    using lt keys_erase [of p "blocks s"] by force
  have lt': "\<forall>n \<in> set (map fst (erase p (blocks s))). n < Suc (nextNode s)"
    using lt keys_erase [of p "blocks s"] by fastforce
  have third: "\<exists>b'. map_of ((nextNode s, b) # erase p (blocks s)) q = Some b' \<and> tag b' = t'"
    if q: "map_of (AList.update t (nextNode s) (blockMap s)) t' = Some q" for t' q
  proof (cases "t' = t")
    case True
    with q have "q = nextNode s" by (simp add: update_conv')
    with True b show ?thesis by simp
  next
    case False
    with q have q': "map_of (blockMap s) t' = Some q" by (simp add: update_conv')
    from m [OF q'] obtain b' where b': "map_of (blocks s) q = Some b'" "tag b' = t'" by blast
    have "q \<noteq> p" using b b' False by auto
    moreover have "q \<noteq> nextNode s" using map_of_bound [OF lt b'(1)] by simp
    ultimately show ?thesis using b' d by (simp add: map_of_erase)
  qed
  show ?thesis
    unfolding wf_set_def using fresh lt' third distinct_erase [OF d, of p] by simp
qed

lemma promoted_same:
  assumes wf: "wf_set s" and p: "map_of (blockMap s) t = Some p"
    and b: "map_of (blocks s) p = Some b" "tag b = t"
  shows "same_blocks s (s\<lparr>blocks := (nextNode s, b) # erase p (blocks s),
                  blockMap := AList.update t (nextNode s) (blockMap s),
                  nextNode := Suc (nextNode s)\<rparr>)"
proof -
  have "t \<in> fst ` set (blockMap s)" using p by (auto dest!: map_of_SomeD intro: rev_image_eqI)
  then show ?thesis
    using mset_erase [OF b(1)] by (auto simp: same_blocks_def dom_update)
qed

lemma promoted_resident:
  assumes wf: "wf_set s" and p: "map_of (blockMap s) t = Some p"
    and b: "map_of (blocks s) p = Some b" "tag b = t"
  shows "resident (s\<lparr>blocks := (nextNode s, b) # erase p (blocks s),
                  blockMap := AList.update t (nextNode s) (blockMap s),
                  nextNode := Suc (nextNode s)\<rparr>) t' = resident s t'"
proof -
  have d: "distinct (map fst (blocks s))" and lt: "\<forall>n \<in> set (map fst (blocks s)). n < nextNode s"
    and m: "\<And>t' q. map_of (blockMap s) t' = Some q \<Longrightarrow> \<exists>b'. map_of (blocks s) q = Some b' \<and> tag b' = t'"
    using wf unfolding wf_set_def by blast+
  show ?thesis
  proof (cases "t' = t")
    case True
    then show ?thesis using p b by (simp add: resident_def findBlock_def update_conv')
  next
    case False
    show ?thesis
    proof (cases "map_of (blockMap s) t'")
      case None
      with False show ?thesis by (simp add: resident_def findBlock_def update_conv')
    next
      case (Some q)
      from m [OF Some] obtain b' where b': "map_of (blocks s) q = Some b'" "tag b' = t'" by blast
      have "q \<noteq> p" using b b' False by auto
      moreover have "q \<noteq> nextNode s" using map_of_bound [OF lt b'(1)] by simp
      ultimately show ?thesis
        using False Some d by (simp add: resident_def findBlock_def update_conv' map_of_erase)
    qed
  qed
qed

lemma same_blocks_refl [simp]: "same_blocks s s"
  by (simp add: same_blocks_def)

lemma wf_cache_counters [simp]:
  "wf_cache (c\<lparr>numReads := r\<rparr>) = wf_cache c"
  "wf_cache (c\<lparr>numReadMisses := r\<rparr>) = wf_cache c"
  "wf_cache (c\<lparr>numWrites := r\<rparr>) = wf_cache c"
  "wf_cache (c\<lparr>numWriteMisses := r\<rparr>) = wf_cache c"
  "wf_cache (c\<lparr>numWriteBacks := r\<rparr>) = wf_cache c"
  by (simp_all add: wf_cache_def)

lemma wf_cache_update:
  "wf_cache c \<Longrightarrow> wf_set s' \<Longrightarrow> wf_cache (c\<lparr>sets := (sets c)[i := s']\<rparr>)"
  by (auto simp: wf_cache_def dest!: set_update_subset_insert [THEN subsetD])

lemma accessCache_wf:
  assumes wf: "wf_cache c" and acc: "accessCache c a = Inr (p, c')"
  shows "wf_cache c'"
    and "list_all2 same_blocks (sets c) (sets c')"
    and "i < length (sets c) \<Longrightarrow> resident (sets c' ! i) t = resident (sets c ! i) t"
    and "locate c a = Inr (j, u) \<Longrightarrow> k \<noteq> j \<Longrightarrow> sets c' ! k = sets c ! k"
proof -
  from accessCache_result [OF acc]
  obtain i0 t0 where l: "locate c a = Inr (i0, t0)" and p: "p = findBlock (sets c ! i0) t0"
    and c': "case p of None \<Rightarrow> c' = c
         | Some block \<Rightarrow> \<exists>s'. moveToMRU (sets c ! i0) block = Inr s' \<and> c' = c\<lparr>sets := (sets c)[i0 := s']\<rparr>"
    by blast
  note bd = locate_bound [OF l]
  have wfs: "wf_set (sets c ! i0)" using wf bd by (simp add: wf_cache_def)
  have all: "wf_cache c' \<and> list_all2 same_blocks (sets c) (sets c')
     \<and> (\<forall>i t. i < length (sets c) \<longrightarrow> resident (sets c' ! i) t = resident (sets c ! i) t)
     \<and> (\<forall>k. k \<noteq> i0 \<longrightarrow> sets c' ! k = sets c ! k)"
  proof (cases p)
    case None
    with c' have "c' = c" by simp
    then show ?thesis using wf by (simp add: list_all2_refl)
  next
    case (Some block)
    with p have f: "findBlock (sets c ! i0) t0 = Some block" by simp
    from moveToMRU_found [OF wfs f]
    obtain b where b: "map_of (blocks (sets c ! i0)) block = Some b" "tag b = t0"
      and mv: "moveToMRU (sets c ! i0) block = Inr ((sets c ! i0)\<lparr>blocks := (nextNode (sets c ! i0), b) # erase block (blocks (sets c ! i0)),
                           blockMap := AList.update t0 (nextNode (sets c ! i0)) (blockMap (sets c ! i0)),
                           nextNode := Suc (nextNode (sets c ! i0))\<rparr>)"
        (is "_ = Inr ?s'")
      by blast
    from c' Some mv have e: "c' = c\<lparr>sets := (sets c)[i0 := ?s']\<rparr>" by simp
    have f': "map_of (blockMap (sets c ! i0)) t0 = Some block" using f by (simp add: findBlock_def)
    note w = promoted_wf [OF wfs f' b]
    note sb = promoted_same [OF wfs f' b]
    note rs = promoted_resident [OF wfs f' b]
    have 1: "wf_cache c'" unfolding e by (rule wf_cache_update [OF wf w])
    have 2: "list_all2 same_blocks (sets c) (sets c')"
      unfolding e using sb bd by (simp add: list_all2_conv_all_nth nth_list_update)
    have 3: "resident (sets c' ! i) t = resident (sets c ! i) t" if "i < length (sets c)" for i t
      unfolding e using rs [of t] that bd by (auto simp: nth_list_update)
    have 4: "sets c' ! k = sets c ! k" if "k \<noteq> i0" for k
      unfolding e using that by simp
    from 1 2 3 4 show ?thesis by blast
  qed
  from all show "wf_cache c'" by blast
  from all show "list_all2 same_blocks (sets c) (sets c')" by blast
  from all show "i < length (sets c) \<Longrightarrow> resident (sets c' ! i) t = resident (sets c ! i) t" by blast
  from all l show "locate c a = Inr (j, u) \<Longrightarrow> k \<noteq> j \<Longrightarrow> sets c' ! k = sets c ! k" by simp
qed

lemma insertBlock_wf:
  assumes wf: "wf_set s"
  shows "wf_set (insertBlock s b)"
proof -
  have d: "distinct (map fst (blocks s))" and lt: "\<forall>n \<in> set (map fst (blocks s)). n < nextNode s"
    and m: "\<And>t' q. map_of (blockMap s) t' = Some q \<Longrightarrow> \<exists>b'. map_of (blocks s) q = Some b' \<and> tag b' = t'"
    using wf unfolding wf_set_def by blast+
  have fresh: "nextNode s \<notin> set (map fst (blocks s))" using lt by force
  have lt': "\<forall>n \<in> set (map fst (blocks s)). n < Suc (nextNode s)" using lt by fastforce
  have third: "\<exists>b'. map_of ((nextNode s, b) # blocks s) q = Some b' \<and> tag b' = t'"
    if q: "map_of (AList.update (tag b) (nextNode s) (blockMap s)) t' = Some q" for t' q
  proof (cases "t' = tag b")
    case True
    with q have "q = nextNode s" by (simp add: update_conv')
    with True show ?thesis by simp
  next
    case False
    with q have q': "map_of (blockMap s) t' = Some q" by (simp add: update_conv')
    from m [OF q'] obtain b' where b': "map_of (blocks s) q = Some b'" "tag b' = t'" by blast
    have "q \<noteq> nextNode s" using map_of_bound [OF lt b'(1)] by simp
    then show ?thesis using b' by simp
  qed
  show ?thesis
    unfolding wf_set_def insertBlock_def using fresh lt' third d by simp
qed

lemma map_of_last:
  "distinct (map fst xs) \<Longrightarrow> xs \<noteq> [] \<Longrightarrow> map_of xs (fst (last xs)) = Some (snd (last xs))"
  by (simp add: map_of_eq_Some_iff)

lemma map_of_butlast:
  assumes "distinct (map fst xs)" "xs \<noteq> []" "q \<noteq> fst (last xs)"
  shows "map_of (butlast xs) q = map_of xs q"
proof -
  have "xs = butlast xs @ [last xs]" using assms(2) by simp
  then have "map_of xs q = map_of (butlast xs @ [last xs]) q" by simp
  also have "\<dots> = map_of (butlast xs) q"
    using assms(3) by (cases "last xs") (auto simp: map_add_def split: option.splits)
  finally show ?thesis by simp
qed

lemma evictLRU_wf:
  assumes wf: "wf_set s" and ev: "evictLRU s = Inr (b, s')"
  shows "wf_set s'"
proof -
  have d: "distinct (map fst (blocks s))" and lt: "\<forall>n \<in> set (map fst (blocks s)). n < nextNode s"
    and m: "\<And>t' q. map_of (blockMap s) t' = Some q \<Longrightarrow> \<exists>b'. map_of (blocks s) q = Some b' \<and> tag b' = t'"
    using wf unfolding wf_set_def by blast+
  from ev have ne: "blocks s \<noteq> []" and b: "b = snd (last (blocks s))"
    and s': "s' = s\<lparr>blockMap := AList.delete (tag b) (blockMap s), blocks := butlast (blocks s)\<rparr>"
    by (auto simp: evictLRU_def Let_def split: if_splits)
  have d': "distinct (map fst (butlast (blocks s)))" using d by (simp add: map_butlast distinct_butlast)
  have sub: "set (butlast (blocks s)) \<subseteq> set (blocks s)" by (auto dest: in_set_butlastD)
  have lt': "\<forall>n \<in> set (map fst (butlast (blocks s))). n < nextNode s" using lt sub by auto
  have third: "\<exists>b'. map_of (butlast (blocks s)) q = Some b' \<and> tag b' = t'"
    if q: "map_of (AList.delete (tag b) (blockMap s)) t' = Some q" for t' q
  proof -
    from q have ne': "t' \<noteq> tag b" and q': "map_of (blockMap s) t' = Some q"
      by (auto simp: delete_conv' split: if_splits)
    from m [OF q'] obtain b' where b': "map_of (blocks s) q = Some b'" "tag b' = t'" by blast
    have "q \<noteq> fst (last (blocks s))"
      using map_of_last [OF d ne] b' ne' b by auto
    from map_of_butlast [OF d ne this] b' show ?thesis by simp
  qed
  show ?thesis unfolding wf_set_def s' using d' lt' third by simp
qed

lemma mark_front_dirty_wf:
  assumes wf: "wf_set s"
  shows "wf_set (mark_front_dirty s)"
proof (cases "blocks s")
  case Nil
  then show ?thesis using wf by (simp add: mark_front_dirty_def)
next
  case (Cons x xs)
  have m: "\<And>t' q. map_of (blockMap s) t' = Some q \<Longrightarrow> \<exists>b'. map_of (blocks s) q = Some b' \<and> tag b' = t'"
    using wf unfolding wf_set_def by blast
  have third: "\<exists>b'. map_of ((fst x, (snd x)\<lparr>dirty := True\<rparr>) # xs) q = Some b' \<and> tag b' = t'"
    if q: "map_of (blockMap s) t' = Some q" for t' q
    using m [OF q] Cons by (cases x) (auto split: if_splits)
  show ?thesis
    using wf Cons third unfolding wf_set_def mark_front_dirty_def by simp
qed

lemma moveToMRU_wf:
  assumes wf: "wf_set s" and f: "findBlock s t = Some p" and mv: "moveToMRU s p = Inr s'"
  shows "wf_set s'"
proof -
  from moveToMRU_found [OF wf f] mv
  obtain b where b: "map_of (blocks s) p = Some b" "tag b = t"
    and e: "s' = s\<lparr>blocks := (nextNode s, b) # erase p (blocks s),
                           blockMap := AList.update t (nextNode s) (blockMap s),
                           nextNode := Suc (nextNode s)\<rparr>"
    by auto
  have "map_of (blockMap s) t = Some p" using f by (simp add: findBlock_def)
  from promoted_wf [OF wf this b] show ?thesis by (simp add: e)
qed

lemma writeToCache_wf:
  assumes wf: "wf_cache c" and w: "writeToCache c a = Inr c'"
  shows "wf_cache c'"
proof -
  from w obtain i t where l: "locate c a = Inr (i, t)"
    by (auto simp: writeToCache_def split: sum.splits)
  note bd = locate_bound [OF l]
  have wfs: "wf_set (sets c ! i)" using wf bd by (simp add: wf_cache_def)
  show ?thesis
  proof (cases "findBlock (sets c ! i) t")
    case (Some block)
    with w l obtain s' where m: "moveToMRU (sets c ! i) block = Inr s'"
      and e: "c' = c\<lparr>sets := (sets c)[i := mark_front_dirty s']\<rparr>"
      by (auto simp: writeToCache_def split: sum.splits)
    from mark_front_dirty_wf [OF moveToMRU_wf [OF wfs Some m]]
    show ?thesis unfolding e by (rule wf_cache_update [OF wf])
  next
    case None
    let ?nb = "\<lparr>tag = t, valid = True, dirty = True\<rparr>"
    show ?thesis
    proof (cases "isFull (sets c ! i)")
      case False
      with w l None have e: "c' = c\<lparr>sets := (sets c)[i := insertBlock (sets c ! i) ?nb]\<rparr>"
        by (simp add: writeToCache_def)
      show ?thesis unfolding e by (rule wf_cache_update [OF wf insertBlock_wf [OF wfs]])
    next
      case True
      from w writeToCache_cases(3) [OF l None True]
      have "\<exists>ev s'. evictLRU (sets c ! i) = Inr (ev, s')
          \<and> (c' = c\<lparr>sets := (sets c)[i := insertBlock s' ?nb]\<rparr>
              \<or> (\<exists>k. c' = c\<lparr>numWriteBacks := k, sets := (sets c)[i := insertBlock s' ?nb]\<rparr>))"
        by (auto split: sum.splits prod.splits if_splits)
      then obtain ev s' where ev: "evictLRU (sets c ! i) = Inr (ev, s')"
        and e: "c' = c\<lparr>sets := (sets c)[i := insertBlock s' ?nb]\<rparr>
              \<or> (\<exists>k. c' = c\<lparr>numWriteBacks := k, sets := (sets c)[i := insertBlock s' ?nb]\<rparr>)"
        by blast
      note w' = insertBlock_wf [OF evictLRU_wf [OF wfs ev], of ?nb]
      from e show ?thesis
      proof
        assume "c' = c\<lparr>sets := (sets c)[i := insertBlock s' ?nb]\<rparr>"
        then show ?thesis using wf_cache_update [OF wf w'] by simp
      next
        assume "\<exists>k. c' = c\<lparr>numWriteBacks := k, sets := (sets c)[i := insertBlock s' ?nb]\<rparr>"
        then obtain k where "c' = c\<lparr>numWriteBacks := k, sets := (sets c)[i := insertBlock s' ?nb]\<rparr>" by blast
        then show ?thesis using wf_cache_update [OF wf w', of i] by (simp add: wf_cache_def)
      qed
    qed
  qed
qed

lemma wf_cache_init: "Cache_init sz a bs = Inr c \<Longrightarrow> wf_cache c"
  by (auto simp: Cache_init_def wf_cache_def wf_set_init split: sum.splits if_splits)

lemma reach_inv_init:
  assumes "main_caches s1 a1 b1 v s2 a2 = Inr h0"
  shows "reach_inv h0"
proof -
  from assms obtain l1 where "Cache_init s1 a1 b1 = Inr l1" "L1 h0 = l1"
    by (auto simp: main_caches_def split: sum.splits)
  then show ?thesis using maps_empty_init [OF assms] wf_cache_init by (auto simp: reach_inv_def)
qed

lemma wf_L1_step:
  assumes wf: "wf_cache (L1 h)" and ev: "processEvent h ev = Inr h'"
  shows "wf_cache (L1 h')"
proof -
  consider (r) "readEvent h (snd ev) = Inr h'"
    | (w) "writeEvent h (snd ev) = Inr h'" | (o) "h' = h"
    using ev unfolding processEvent_def
    by (cases "fst ev = CHR ''r''"; cases "fst ev = CHR ''w''") simp_all
  then show ?thesis
  proof cases
    case r
    from readEvent_result [OF r]
    obtain rr p c where acc: "accessCache ((L1 h)\<lparr>numReads := rr\<rparr>) (snd ev) = Inr (p, c)"
      and l1': "case p of Some block \<Rightarrow> L1 h' = c
         | None \<Rightarrow> \<exists>m. int_incr (numReadMisses c) = Inr m \<and> L1 h' = c\<lparr>numReadMisses := m\<rparr>"
      by blast
    have "wf_cache ((L1 h)\<lparr>numReads := rr\<rparr>)" using wf by simp
    from accessCache_wf(1) [OF this acc] l1' show ?thesis by (auto split: option.splits)
  next
    case w
    from writeEvent_result [OF w]
    obtain ww p c c1 where acc: "accessCache ((L1 h)\<lparr>numWrites := ww\<rparr>) (snd ev) = Inr (p, c)"
      and c1': "case p of Some block \<Rightarrow> c1 = c
         | None \<Rightarrow> \<exists>m. int_incr (numWriteMisses c) = Inr m \<and> c1 = c\<lparr>numWriteMisses := m\<rparr>"
      and wr: "writeToCache c1 (snd ev) = Inr (L1 h')"
      by blast
    have "wf_cache ((L1 h)\<lparr>numWrites := ww\<rparr>)" using wf by simp
    from accessCache_wf(1) [OF this acc] c1' have "wf_cache c1" by (auto split: option.splits)
    from writeToCache_wf [OF this wr] show ?thesis .
  next
    case o
    then show ?thesis using wf by simp
  qed
qed

lemma reach_inv_run:
  "reach_inv h \<Longrightarrow> simulateCacheHierarchy h evs = Inr h' \<Longrightarrow> reach_inv h'"
proof (induction evs arbitrary: h)
  case Nil
  then show ?case by simp
next
  case (Cons ev evs)
  from Cons.prems(2) obtain h1 where s: "processEvent h ev = Inr h1"
    and r: "simulateCacheHierarchy h1 evs = Inr h'"
    by (auto split: sum.splits)
  have "reach_inv h1"
    using Cons.prems(1) wf_L1_step [OF _ s] maps_empty_step [OF _ s] by (simp add: reach_inv_def)
  from Cons.IH [OF this r] show ?case .
qed

lemma read_L1:
  assumes wf: "wf_cache (L1 h)" and r: "readEvent h a = Inr h'"
  shows "list_all2 same_blocks (sets (L1 h)) (sets (L1 h'))"
    and "i < length (sets (L1 h)) \<Longrightarrow> resident (sets (L1 h') ! i) t = resident (sets (L1 h) ! i) t"
    and "locate (L1 h) a = Inr (j, u) \<Longrightarrow> k \<noteq> j \<Longrightarrow> sets (L1 h') ! k = sets (L1 h) ! k"
    and "numWrites (L1 h') = numWrites (L1 h)" "numWriteMisses (L1 h') = numWriteMisses (L1 h)"
      "numWriteBacks (L1 h') = numWriteBacks (L1 h)" "size_c (L1 h') = size_c (L1 h)"
      "assoc (L1 h') = assoc (L1 h)" "blockSize (L1 h') = blockSize (L1 h)"
      "numSets (L1 h') = numSets (L1 h)"
proof -
  from readEvent_result [OF r]
  obtain rr p c where acc: "accessCache ((L1 h)\<lparr>numReads := rr\<rparr>) a = Inr (p, c)"
    and l1': "case p of Some block \<Rightarrow> L1 h' = c
       | None \<Rightarrow> \<exists>m. int_incr (numReadMisses c) = Inr m \<and> L1 h' = c\<lparr>numReadMisses := m\<rparr>"
    by blast
  have wf': "wf_cache ((L1 h)\<lparr>numReads := rr\<rparr>)" using wf by simp
  have s: "sets (L1 h') = sets c" using l1' by (auto split: option.splits)
  note a = accessCache_wf [OF wf' acc]
  show "list_all2 same_blocks (sets (L1 h)) (sets (L1 h'))" using a(2) s by simp
  show "i < length (sets (L1 h)) \<Longrightarrow> resident (sets (L1 h') ! i) t = resident (sets (L1 h) ! i) t"
    using a(3) [of i t] s by simp
  show "locate (L1 h) a = Inr (j, u) \<Longrightarrow> k \<noteq> j \<Longrightarrow> sets (L1 h') ! k = sets (L1 h) ! k"
    using a(4) [of j u k] s by simp
  show "numWrites (L1 h') = numWrites (L1 h)" "numWriteMisses (L1 h') = numWriteMisses (L1 h)"
      "numWriteBacks (L1 h') = numWriteBacks (L1 h)" "size_c (L1 h') = size_c (L1 h)"
      "assoc (L1 h') = assoc (L1 h)" "blockSize (L1 h') = blockSize (L1 h)"
      "numSets (L1 h') = numSets (L1 h)"
    using accessCache_counters [OF acc] l1' by (auto split: option.splits)
qed

section \<open>Reads\<close>

text \<open>
  C6. From the caches \<open>main\<close> builds and after any trace, an event that is not a write
  puts no block into any cache: every set of \<open>L1\<close> holds the same blocks as before (the
  same node contents, the same tags in its map), \<open>L2\<close> and the victim cache are exactly
  as before; and a read that misses in \<open>L1\<close> changes nothing of \<open>L1\<close> but \<open>numReads\<close>
  and \<open>numReadMisses\<close>, each one more. Only a write event is left to allocate.
\<close>

theorem reads_never_allocate:
  assumes init: "main_caches L1_SIZE L1_ASSOC L1_BLOCKSIZE VC_NUM_BLOCKS L2_SIZE L2_ASSOC = Inr h0"
    and run: "simulateCacheHierarchy h0 trace = Inr h"
    and ev: "processEvent h (op, address) = Inr h'"
    and nw: "op \<noteq> CHR ''w''"
  shows "list_all2 same_blocks (sets (L1 h)) (sets (L1 h'))
     \<and> L2 h' = L2 h \<and> VC h' = VC h
     \<and> (op = CHR ''r'' \<longrightarrow> misses (L1 h) address \<longrightarrow>
          L1 h' = (L1 h)\<lparr>numReads := numReads (L1 h) + 1,
                         numReadMisses := numReadMisses (L1 h) + 1\<rparr>)"
proof (cases "op = CHR ''r''")
  case True
  with ev have r: "readEvent h address = Inr h'" by (simp add: processEvent_def)
  have inv: "reach_inv h" using reach_inv_run [OF reach_inv_init [OF init] run] .
  then have wf: "wf_cache (L1 h)" and e: "maps_empty h" by (simp_all add: reach_inv_def)
  have "L1 h' = (L1 h)\<lparr>numReads := numReads (L1 h) + 1,
                         numReadMisses := numReadMisses (L1 h) + 1\<rparr>"
    if "misses (L1 h) address"
    using readEvent_miss [OF r that] by (auto dest!: int_incr_Inr)
  then show ?thesis
    using read_L1(1) [OF wf r] read_frame_empty [OF e r] by simp
next
  case False
  with ev nw have "h' = h" by (simp add: processEvent_def)
  then show ?thesis using False by (simp add: list_all2_refl)
qed

theorem reads_never_allocate_witness:
  "main_caches 64 1 32 0 0 0 = Inr (projr small_setup)
   \<and> simulateCacheHierarchy (projr small_setup) [(CHR ''w'', 0x0)] = Inr (projr small_after_write)
   \<and> processEvent (projr small_after_write) (CHR ''r'', 0x40) = Inr (projr small_read_miss)
   \<and> CHR ''r'' \<noteq> CHR ''w''
   \<and> misses (L1 (projr small_after_write)) 0x40
   \<and> list_all2 same_blocks (sets (L1 (projr small_after_write))) (sets (L1 (projr small_read_miss)))
   \<and> L1 (projr small_read_miss)
       = (L1 (projr small_after_write))
           \<lparr>numReads := numReads (L1 (projr small_after_write)) + 1,
            numReadMisses := numReadMisses (L1 (projr small_after_write)) + 1\<rparr>"
proof -
  have h1: "main_caches 64 1 32 0 0 0 = Inr (projr small_setup)"
    unfolding small_setup_def by code_simp
  have h2: "simulateCacheHierarchy (projr small_setup) [(CHR ''w'', 0x0)] = Inr (projr small_after_write)"
    unfolding small_after_write_def small_setup_def by code_simp
  have h3: "processEvent (projr small_after_write) (CHR ''r'', 0x40) = Inr (projr small_read_miss)"
    unfolding small_read_miss_def small_after_write_def small_setup_def by code_simp
  have h4: "CHR ''r'' \<noteq> CHR ''w''" by simp
  have h5: "misses (L1 (projr small_after_write)) 0x40"
    unfolding small_after_write_def small_setup_def by code_simp
  from reads_never_allocate [OF h1 h2 h3 h4] h5
  show ?thesis using h1 h2 h3 h4 by blast
qed

text \<open>
  C10. From the caches \<open>main\<close> builds and after any trace, a read event leaves
  \<open>numWrites\<close>, \<open>numWriteMisses\<close> and \<open>numWriteBacks\<close> of \<open>L1\<close> as they were; \<open>L1\<close>
  differs from before in \<open>numReads\<close>, \<open>numReadMisses\<close> and \<open>sets\<close> at most; in every
  set every tag names the same block as before, with the same dirty flag, and the node
  contents are the same up to their order; the sets other than the one the address maps
  to are untouched.
\<close>

theorem read_keeps_write_state:
  assumes init: "main_caches L1_SIZE L1_ASSOC L1_BLOCKSIZE VC_NUM_BLOCKS L2_SIZE L2_ASSOC = Inr h0"
    and run: "simulateCacheHierarchy h0 trace = Inr h"
    and ev: "processEvent h (CHR ''r'', address) = Inr h'"
  shows "numWrites (L1 h') = numWrites (L1 h)
     \<and> numWriteMisses (L1 h') = numWriteMisses (L1 h)
     \<and> numWriteBacks (L1 h') = numWriteBacks (L1 h)
     \<and> L1 h' = (L1 h)\<lparr>sets := sets (L1 h'), numReads := numReads (L1 h'),
                      numReadMisses := numReadMisses (L1 h')\<rparr>
     \<and> length (sets (L1 h')) = length (sets (L1 h))
     \<and> (\<forall>i t. i < length (sets (L1 h)) \<longrightarrow>
           resident (sets (L1 h') ! i) t = resident (sets (L1 h) ! i) t)
     \<and> (\<forall>i. i < length (sets (L1 h)) \<longrightarrow>
           mset (map snd (blocks (sets (L1 h') ! i))) = mset (map snd (blocks (sets (L1 h) ! i))))
     \<and> (\<forall>i t j. locate (L1 h) address = Inr (i, t) \<longrightarrow> j \<noteq> i \<longrightarrow>
           sets (L1 h') ! j = sets (L1 h) ! j)"
proof -
  from ev have r: "readEvent h address = Inr h'" by (simp add: processEvent_def)
  have inv: "reach_inv h" using reach_inv_run [OF reach_inv_init [OF init] run] .
  then have wf: "wf_cache (L1 h)" by (simp add: reach_inv_def)
  note f = read_L1 [OF wf r]
  have eq: "L1 h' = (L1 h)\<lparr>sets := sets (L1 h'), numReads := numReads (L1 h'),
                      numReadMisses := numReadMisses (L1 h')\<rparr>"
    using f(4-10) by (intro Cache.equality) simp_all
  have len: "length (sets (L1 h')) = length (sets (L1 h))"
    using f(1) by (simp add: list_all2_lengthD)
  have ms: "mset (map snd (blocks (sets (L1 h') ! i))) = mset (map snd (blocks (sets (L1 h) ! i)))"
    if "i < length (sets (L1 h))" for i
    using f(1) that by (simp add: list_all2_conv_all_nth same_blocks_def)
  show ?thesis using f(2,3,4,5,6) eq len ms by blast
qed

theorem read_keeps_write_state_witness:
  "main_caches 64 1 32 0 0 0 = Inr (projr small_setup)
   \<and> simulateCacheHierarchy (projr small_setup) [(CHR ''w'', 0x0)] = Inr (projr small_after_write)
   \<and> processEvent (projr small_after_write) (CHR ''r'', 0x0) = Inr (projr small_read_hit)
   \<and> hits (L1 (projr small_after_write)) 0x0
   \<and> numWrites (L1 (projr small_read_hit)) = numWrites (L1 (projr small_after_write))
   \<and> numWriteBacks (L1 (projr small_read_hit)) = numWriteBacks (L1 (projr small_after_write))
   \<and> resident (sets (L1 (projr small_read_hit)) ! 0) 0
       = resident (sets (L1 (projr small_after_write)) ! 0) 0
   \<and> resident (sets (L1 (projr small_after_write)) ! 0) 0
       = Some \<lparr>tag = 0, valid = True, dirty = True\<rparr>"
proof -
  have h1: "main_caches 64 1 32 0 0 0 = Inr (projr small_setup)"
    unfolding small_setup_def by code_simp
  have h2: "simulateCacheHierarchy (projr small_setup) [(CHR ''w'', 0x0)] = Inr (projr small_after_write)"
    unfolding small_after_write_def small_setup_def by code_simp
  have h3: "processEvent (projr small_after_write) (CHR ''r'', 0x0) = Inr (projr small_read_hit)"
    unfolding small_read_hit_def small_after_write_def small_setup_def by code_simp
  have h4: "hits (L1 (projr small_after_write)) 0x0"
    unfolding small_after_write_def small_setup_def by code_simp
  have h5: "resident (sets (L1 (projr small_after_write)) ! 0) 0
       = Some \<lparr>tag = 0, valid = True, dirty = True\<rparr>"
    unfolding small_after_write_def small_setup_def by code_simp
  have h6: "0 < length (sets (L1 (projr small_after_write)))"
    unfolding small_after_write_def small_setup_def by code_simp
  from read_keeps_write_state [OF h1 h2 h3] h6
  show ?thesis using h1 h2 h3 h4 h5 by blast
qed

section \<open>Runs of configurations nobody checks\<close>



lemma geometry_ok_counters [simp]:
  "geometry_ok (c\<lparr>numReads := r\<rparr>) = geometry_ok c"
  "geometry_ok (c\<lparr>numReadMisses := r\<rparr>) = geometry_ok c"
  "geometry_ok (c\<lparr>numWrites := r\<rparr>) = geometry_ok c"
  "geometry_ok (c\<lparr>numWriteMisses := r\<rparr>) = geometry_ok c"
  "geometry_ok (c\<lparr>numWriteBacks := r\<rparr>) = geometry_ok c"
  by (simp_all add: geometry_ok_def)




















end
